theory Spec2Isabelle
  imports Main "HOL-Library.Word"
begin

unbundle bit_operations_syntax

section \<open>ROR13 hash-based function resolver: shallow embedding\<close>

text \<open>
  The development follows \<^verbatim>\<open>techniques/dynamic-function-resolution/POC/ror13_resolver.c\<close>.
  The file is written for Windows (\<^verbatim>\<open>windows.h\<close>): \<^verbatim>\<open>DWORD\<close> is an unsigned 32-bit
  integer, \<^verbatim>\<open>WORD\<close> and \<^verbatim>\<open>WCHAR\<close> are unsigned 16-bit integers, and plain \<^verbatim>\<open>char\<close> is a
  signed 8-bit integer. Pointers are taken at the 64-bit width of the \<^verbatim>\<open>_WIN64\<close> branch.
\<close>

type_synonym DWORD = "32 word"
type_synonym WORD = "16 word"
type_synonym WCHAR = "16 word"
type_synonym USHORT = "16 word"
type_synonym c_char = "8 word"
type_synonym ptr = "64 word"

subsection \<open>Hashing\<close>

text \<open>The statement \<^verbatim>\<open>hash = (hash >> 13) | (hash << (32 - 13))\<close> on a \<^verbatim>\<open>DWORD\<close>.\<close>

definition ror13 :: "DWORD \<Rightarrow> DWORD" where
  "ror13 hash = (drop_bit 13 hash) OR (push_bit (32 - 13) hash)"

text \<open>
  \<^verbatim>\<open>ror13_hash(const char* str)\<close>. The argument is the sequence of bytes stored from
  \<^verbatim>\<open>str\<close> to the end of the readable buffer. The loop stops at the first zero byte;
  running off the buffer before a zero byte is an invalid read, \<open>None\<close>.
  \<^verbatim>\<open>(DWORD)(*str)\<close> converts a signed \<^verbatim>\<open>char\<close> to 32 bits, which is \<open>scast\<close>.
\<close>

fun ror13_hash_loop :: "DWORD \<Rightarrow> c_char list \<Rightarrow> DWORD option" where
  "ror13_hash_loop hash [] = None"
| "ror13_hash_loop hash (c # str) =
     (if c \<noteq> 0 then ror13_hash_loop (ror13 hash + scast c) str else Some hash)"

definition ror13_hash :: "c_char list \<Rightarrow> DWORD option" where
  "ror13_hash str = ror13_hash_loop 0 str"

text \<open>
  \<^verbatim>\<open>UNICODE_STRING\<close>: \<open>Length\<close> is the byte length (a \<^verbatim>\<open>USHORT\<close>), \<open>Buffer\<close> the code
  units stored at the buffer pointer.
\<close>

record UNICODE_STRING =
  Length :: USHORT
  Buffer :: "WCHAR list"

text \<open>The body \<^verbatim>\<open>if (c >= 'a' && c <= 'z') c -= 0x20;\<close> on a \<^verbatim>\<open>WCHAR\<close>.\<close>

definition to_upper :: "WCHAR \<Rightarrow> WCHAR" where
  "to_upper c = (if c \<ge> 0x61 \<and> c \<le> 0x7A then c - 0x20 else c)"

text \<open>
  \<^verbatim>\<open>unicode_ror13_hash(PUNICODE_STRING str)\<close>: the loop over
  \<^verbatim>\<open>i < str->Length / sizeof(WCHAR)\<close>, reading \<^verbatim>\<open>ptr[i]\<close>. A read beyond the stored code
  units is an invalid read, \<open>None\<close>.
\<close>

function unicode_ror13_loop :: "UNICODE_STRING \<Rightarrow> nat \<Rightarrow> DWORD \<Rightarrow> DWORD option" where
  "unicode_ror13_loop str i hash =
     (if i < unat (Length str) div 2 then
        (if i < length (Buffer str) then
           unicode_ror13_loop str (Suc i) (ror13 hash + ucast (to_upper (Buffer str ! i)))
         else None)
      else Some hash)"
  by pat_completeness auto
termination
  by (relation "measure (\<lambda>(str, i, hash). unat (Length str) div 2 - i)") simp_all

definition unicode_ror13_hash :: "UNICODE_STRING \<Rightarrow> DWORD option" where
  "unicode_ror13_hash str = unicode_ror13_loop str 0 0"

text \<open>String literals as the compiler stores them: the bytes followed by the terminator.\<close>

definition c_str :: "string \<Rightarrow> c_char list" where
  "c_str s = map of_char s @ [0]"

text \<open>A counted wide string holding the characters of an ASCII literal.\<close>

definition w_str :: "string \<Rightarrow> UNICODE_STRING" where
  "w_str s = \<lparr>Length = of_nat (2 * length s), Buffer = map of_char s\<rparr>"

text \<open>The hash constants the source file defines.\<close>

definition HASH_KERNEL32 :: DWORD where "HASH_KERNEL32 = 0x6A4ABC5B"
definition HASH_VIRTUALALLOC :: DWORD where "HASH_VIRTUALALLOC = 0x91AFCA54"
definition HASH_CREATETHREAD :: DWORD where "HASH_CREATETHREAD = 0x3F9287AE"

subsection \<open>The hash as the specification words it\<close>

text \<open>
  The accumulator starts at 0; for each character, rotate right by 13 bits, then add the
  character's unsigned numeric value modulo \<open>2 ^ 32\<close>.
\<close>

definition hash_narrow_spec :: "c_char list \<Rightarrow> DWORD" where
  "hash_narrow_spec s = foldl (\<lambda>acc c. word_rotr 13 acc + of_nat (unat c)) 0 s"

text \<open>The same fold, adding the value of the character read as a signed \<^verbatim>\<open>char\<close>.\<close>

definition hash_narrow_signed :: "c_char list \<Rightarrow> DWORD" where
  "hash_narrow_signed s = foldl (\<lambda>acc c. word_rotr 13 acc + of_int (sint c)) 0 s"

subsection \<open>Process memory\<close>

text \<open>
  The resolver reads loader structures and mapped images through raw pointers. Memory is a
  typed store: for every kind of object the code reads, a partial map from addresses to the
  object stored there. An address outside the map's domain is not readable, and reading it
  is an access violation, \<open>Fault\<close>.
\<close>

datatype 'a result = Fault | Ret 'a

definition NULL :: ptr where
  "NULL = 0"

record LDR_DATA_TABLE_ENTRY =
  DllBase :: ptr
  BaseDllName :: UNICODE_STRING

record IMAGE_DOS_HEADER =
  e_magic :: WORD
  e_lfanew :: "32 word"

text \<open>
  Of \<^verbatim>\<open>IMAGE_NT_HEADERS\<close> the code reads \<^verbatim>\<open>Signature\<close> and
  \<^verbatim>\<open>OptionalHeader.DataDirectory[IMAGE_DIRECTORY_ENTRY_EXPORT].VirtualAddress\<close>.
\<close>

record IMAGE_NT_HEADERS =
  Signature :: DWORD
  ExportDirectory_VirtualAddress :: DWORD

record IMAGE_EXPORT_DIRECTORY =
  NumberOfNames :: DWORD
  AddressOfFunctions :: DWORD
  AddressOfNames :: DWORD
  AddressOfNameOrdinals :: DWORD

text \<open>
  \<open>Ldr\<close> is the value of \<^verbatim>\<open>pPeb->Ldr\<close>; \<open>list_entry_at\<close> gives the \<^verbatim>\<open>Flink\<close> of the
  \<^verbatim>\<open>LIST_ENTRY\<close> stored at an address; \<open>string_at\<close> gives the bytes stored from an
  address to the end of its readable region.
\<close>

record memory =
  Ldr :: ptr
  list_entry_at :: "ptr \<rightharpoonup> ptr"
  ldr_entry_at :: "ptr \<rightharpoonup> LDR_DATA_TABLE_ENTRY"
  dos_header_at :: "ptr \<rightharpoonup> IMAGE_DOS_HEADER"
  nt_headers_at :: "ptr \<rightharpoonup> IMAGE_NT_HEADERS"
  export_directory_at :: "ptr \<rightharpoonup> IMAGE_EXPORT_DIRECTORY"
  dword_at :: "ptr \<rightharpoonup> DWORD"
  word_at :: "ptr \<rightharpoonup> WORD"
  string_at :: "ptr \<rightharpoonup> c_char list"

text \<open>
  The declarations of \<^verbatim>\<open>windows.h\<close> the code depends on are not part of the repository;
  they are parameters: the two signature constants, the offset of
  \<^verbatim>\<open>InMemoryOrderModuleList\<close> in \<^verbatim>\<open>PEB_LDR_DATA\<close> and the offset of
  \<^verbatim>\<open>InMemoryOrderLinks\<close> in \<^verbatim>\<open>LDR_DATA_TABLE_ENTRY\<close> (used by \<^verbatim>\<open>CONTAINING_RECORD\<close>).
\<close>

record windows_h =
  IMAGE_DOS_SIGNATURE :: WORD
  IMAGE_NT_SIGNATURE :: DWORD
  offsetof_InMemoryOrderModuleList :: ptr
  offsetof_InMemoryOrderLinks :: ptr

text \<open>The values of the 64-bit Windows headers.\<close>

definition win64 :: windows_h where
  "win64 = \<lparr>IMAGE_DOS_SIGNATURE = 0x5A4D, IMAGE_NT_SIGNATURE = 0x00004550,
            offsetof_InMemoryOrderModuleList = 0x20, offsetof_InMemoryOrderLinks = 0x10\<rparr>"

subsection \<open>Module lookup\<close>

text \<open>
  The loop \<^verbatim>\<open>while (pListEntry != pListHead)\<close> of \<^verbatim>\<open>find_module_by_hash\<close>. Nothing bounds
  the number of links it follows, so the function is partial: \<open>None\<close> is a loop that
  never returns.
  The parameters \<^verbatim>\<open>module_hash\<close> and \<^verbatim>\<open>function_hash\<close> of the source functions are written
  \<open>mhash\<close> and \<open>fhash\<close>: the long names are the field names of \<^verbatim>\<open>CACHE_ENTRY\<close>.
\<close>

partial_function (option) find_module_loop ::
  "windows_h \<Rightarrow> memory \<Rightarrow> DWORD \<Rightarrow> ptr \<Rightarrow> ptr \<Rightarrow> ptr result option" where
  "find_module_loop W mem mhash pListHead pListEntry =
     (if pListEntry \<noteq> pListHead then
        (case ldr_entry_at mem (pListEntry - offsetof_InMemoryOrderLinks W) of
           None \<Rightarrow> Some Fault
         | Some pEntry \<Rightarrow>
             (case unicode_ror13_hash (BaseDllName pEntry) of
                None \<Rightarrow> Some Fault
              | Some hash \<Rightarrow>
                  (if hash = mhash then Some (Ret (DllBase pEntry))
                   else (case list_entry_at mem pListEntry of
                           None \<Rightarrow> Some Fault
                         | Some next_entry \<Rightarrow>
                             find_module_loop W mem mhash pListHead next_entry))))
      else Some (Ret NULL))"

definition find_module_by_hash :: "windows_h \<Rightarrow> memory \<Rightarrow> DWORD \<Rightarrow> ptr result option" where
  "find_module_by_hash W mem mhash =
     (let pLdr = Ldr mem;
          pListHead = pLdr + offsetof_InMemoryOrderModuleList W
      in (case list_entry_at mem pListHead of
            None \<Rightarrow> Some Fault
          | Some pListEntry \<Rightarrow> find_module_loop W mem mhash pListHead pListEntry))"

subsection \<open>Function lookup\<close>

text \<open>
  The loop \<^verbatim>\<open>for (DWORD i = 0; i < pExportDir->NumberOfNames; i++)\<close>. The three array
  pointers are the module base plus a 32-bit offset; \<^verbatim>\<open>pNames[i]\<close> and
  \<^verbatim>\<open>pFunctions[k]\<close> are 4 bytes apart, \<^verbatim>\<open>pOrdinals[i]\<close> 2 bytes.
\<close>

function find_function_loop ::
  "memory \<Rightarrow> ptr \<Rightarrow> DWORD \<Rightarrow> IMAGE_EXPORT_DIRECTORY \<Rightarrow> nat \<Rightarrow> ptr result" where
  "find_function_loop mem hModule fhash pExportDir i =
     (let pNames = hModule + ucast (AddressOfNames pExportDir);
          pFunctions = hModule + ucast (AddressOfFunctions pExportDir);
          pOrdinals = hModule + ucast (AddressOfNameOrdinals pExportDir)
      in if i < unat (NumberOfNames pExportDir) then
           (case dword_at mem (pNames + 4 * of_nat i) of
              None \<Rightarrow> Fault
            | Some name_rva \<Rightarrow>
                (case string_at mem (hModule + ucast name_rva) of
                   None \<Rightarrow> Fault
                 | Some funcName \<Rightarrow>
                     (case ror13_hash funcName of
                        None \<Rightarrow> Fault
                      | Some hash \<Rightarrow>
                          (if hash = fhash then
                             (case word_at mem (pOrdinals + 2 * of_nat i) of
                                None \<Rightarrow> Fault
                              | Some ordinal \<Rightarrow>
                                  (case dword_at mem (pFunctions + 4 * ucast ordinal) of
                                     None \<Rightarrow> Fault
                                   | Some func_rva \<Rightarrow> Ret (hModule + ucast func_rva)))
                           else find_function_loop mem hModule fhash pExportDir (Suc i)))))
         else Ret NULL)"
  by pat_completeness auto
termination
  by (relation "measure (\<lambda>(mem, hModule, fhash, pExportDir, i). unat (NumberOfNames pExportDir) - i)")
    simp_all

definition find_function_by_hash :: "windows_h \<Rightarrow> memory \<Rightarrow> ptr \<Rightarrow> DWORD \<Rightarrow> ptr result" where
  "find_function_by_hash W mem hModule fhash =
     (if hModule = NULL then Ret NULL
      else
        (case dos_header_at mem hModule of
           None \<Rightarrow> Fault
         | Some pDosHeader \<Rightarrow>
             (if e_magic pDosHeader \<noteq> IMAGE_DOS_SIGNATURE W then Ret NULL
              else
                (case nt_headers_at mem (hModule + scast (e_lfanew pDosHeader)) of
                   None \<Rightarrow> Fault
                 | Some pNtHeaders \<Rightarrow>
                     (if Signature pNtHeaders \<noteq> IMAGE_NT_SIGNATURE W then Ret NULL
                      else
                        (let export_rva = ExportDirectory_VirtualAddress pNtHeaders
                         in (if export_rva = 0 then Ret NULL
                             else
                               (case export_directory_at mem (hModule + ucast export_rva) of
                                  None \<Rightarrow> Fault
                                | Some pExportDir \<Rightarrow>
                                    find_function_loop mem hModule fhash pExportDir 0))))))))"

subsection \<open>Cached resolver\<close>

definition MAX_CACHE_ENTRIES :: nat where
  "MAX_CACHE_ENTRIES = 256"

record CACHE_ENTRY =
  module_hash :: DWORD
  function_hash :: DWORD
  address :: ptr

text \<open>The two globals \<^verbatim>\<open>g_cache\<close> and \<^verbatim>\<open>g_cache_count\<close>.\<close>

record globals =
  g_cache :: "CACHE_ENTRY list"
  g_cache_count :: nat

text \<open>Static storage is zero-initialised; the array has \<^verbatim>\<open>MAX_CACHE_ENTRIES\<close> elements.\<close>

definition initial_globals :: globals where
  "initial_globals =
     \<lparr>g_cache = replicate MAX_CACHE_ENTRIES \<lparr>module_hash = 0, function_hash = 0, address = NULL\<rparr>,
      g_cache_count = 0\<rparr>"

text \<open>
  The cache check of \<^verbatim>\<open>resolve_cached\<close>: \<open>Ret (Some a)\<close> is the early return of a cached
  address, \<open>Ret None\<close> falls through to the resolution. An index beyond the array is an
  invalid read.
\<close>

function cache_check :: "globals \<Rightarrow> DWORD \<Rightarrow> DWORD \<Rightarrow> nat \<Rightarrow> ptr option result" where
  "cache_check g mhash fhash i =
     (if i < g_cache_count g then
        (if i < length (g_cache g) then
           (if module_hash (g_cache g ! i) = mhash \<and> function_hash (g_cache g ! i) = fhash
            then Ret (Some (address (g_cache g ! i)))
            else cache_check g mhash fhash (Suc i))
         else Fault)
      else Ret None)"
  by pat_completeness auto
termination
  by (relation "measure (\<lambda>(g, mhash, fhash, i). g_cache_count g - i)") simp_all

definition resolve_cached ::
  "windows_h \<Rightarrow> memory \<Rightarrow> globals \<Rightarrow> DWORD \<Rightarrow> DWORD \<Rightarrow> (ptr \<times> globals) result option" where
  "resolve_cached W mem g mhash fhash =
     (case cache_check g mhash fhash 0 of
        Fault \<Rightarrow> Some Fault
      | Ret (Some cached) \<Rightarrow> Some (Ret (cached, g))
      | Ret None \<Rightarrow>
          (case find_module_by_hash W mem mhash of
             None \<Rightarrow> None
           | Some Fault \<Rightarrow> Some Fault
           | Some (Ret hModule) \<Rightarrow>
               (case find_function_by_hash W mem hModule fhash of
                  Fault \<Rightarrow> Some Fault
                | Ret addr \<Rightarrow>
                    (if addr \<noteq> NULL \<and> g_cache_count g < MAX_CACHE_ENTRIES then
                       (if g_cache_count g < length (g_cache g) then
                          Some (Ret (addr,
                            g\<lparr>g_cache := (g_cache g)
                                 [g_cache_count g :=
                                    \<lparr>module_hash = mhash, function_hash = fhash, address = addr\<rparr>],
                              g_cache_count := g_cache_count g + 1\<rparr>))
                        else Some Fault)
                     else Some (Ret (addr, g))))))"

declare find_function_loop.simps [simp del]
declare cache_check.simps [simp del]

subsection \<open>Notions used to state the properties\<close>

text \<open>
  \<open>upcased u u'\<close>: \<open>u'\<close> is the code unit \<open>u\<close>, or \<open>u\<close> is an ASCII lowercase letter and
  \<open>u'\<close> its uppercase counterpart.
\<close>

definition upcased :: "WCHAR \<Rightarrow> WCHAR \<Rightarrow> bool" where
  "upcased u u' \<longleftrightarrow> u' = u \<or> (0x61 \<le> u \<and> u \<le> 0x7A \<and> u' = u - 0x20)"

text \<open>
  \<open>module_list W mem pListHead p es\<close>: following \<^verbatim>\<open>Flink\<close> from the link \<open>p\<close> visits, in
  this order, the links of the module records \<open>es\<close> and then arrives back at the list head.
\<close>

fun module_list ::
  "windows_h \<Rightarrow> memory \<Rightarrow> ptr \<Rightarrow> ptr \<Rightarrow> LDR_DATA_TABLE_ENTRY list \<Rightarrow> bool" where
  "module_list W mem pListHead p [] \<longleftrightarrow> p = pListHead"
| "module_list W mem pListHead p (e # es) \<longleftrightarrow>
     p \<noteq> pListHead \<and>
     ldr_entry_at mem (p - offsetof_InMemoryOrderLinks W) = Some e \<and>
     (case list_entry_at mem p of
        None \<Rightarrow> False
      | Some next_entry \<Rightarrow> module_list W mem pListHead next_entry es)"

text \<open>The first record, in list order, whose base name hashes to the target.\<close>

definition first_module :: "DWORD \<Rightarrow> LDR_DATA_TABLE_ENTRY list \<Rightarrow> LDR_DATA_TABLE_ENTRY option" where
  "first_module mhash es = find (\<lambda>e. unicode_ror13_hash (BaseDllName e) = Some mhash) es"

text \<open>
  \<open>module_path W mem pListHead p es q\<close>: following \<^verbatim>\<open>Flink\<close> from the link \<open>p\<close> visits, in
  this order, the links of the readable module records \<open>es\<close>, none of them the list head,
  and arrives at the link \<open>q\<close>.
\<close>

fun module_path ::
  "windows_h \<Rightarrow> memory \<Rightarrow> ptr \<Rightarrow> ptr \<Rightarrow> LDR_DATA_TABLE_ENTRY list \<Rightarrow> ptr \<Rightarrow> bool" where
  "module_path W mem pListHead p [] q \<longleftrightarrow> p = q"
| "module_path W mem pListHead p (e # es) q \<longleftrightarrow>
     p \<noteq> pListHead \<and>
     ldr_entry_at mem (p - offsetof_InMemoryOrderLinks W) = Some e \<and>
     (case list_entry_at mem p of
        None \<Rightarrow> False
      | Some next_entry \<Rightarrow> module_path W mem pListHead next_entry es q)"

text \<open>Every record of \<open>es\<close> has a readable base name that hashes to another value than the target.\<close>

definition skipped :: "DWORD \<Rightarrow> LDR_DATA_TABLE_ENTRY list \<Rightarrow> bool" where
  "skipped mhash es =
     list_all (\<lambda>e. case unicode_ror13_hash (BaseDllName e) of
                      None \<Rightarrow> False
                    | Some hash \<Rightarrow> hash \<noteq> mhash) es"

text \<open>
  The loop iteration at the link \<open>q\<close> needs a read that fails: the module record, the
  buffer of its base name, or, the name not matching, the \<^verbatim>\<open>Flink\<close> of the link.
\<close>

definition unreadable_step :: "windows_h \<Rightarrow> memory \<Rightarrow> DWORD \<Rightarrow> ptr \<Rightarrow> bool" where
  "unreadable_step W mem mhash q =
     (case ldr_entry_at mem (q - offsetof_InMemoryOrderLinks W) of
        None \<Rightarrow> True
      | Some e \<Rightarrow>
          (case unicode_ror13_hash (BaseDllName e) of
             None \<Rightarrow> True
           | Some hash \<Rightarrow> hash \<noteq> mhash \<and> list_entry_at mem q = None))"

text \<open>The record at the link \<open>q\<close> is readable, its base name hashes to the target, and its base is \<open>base\<close>.\<close>

definition matched_step :: "windows_h \<Rightarrow> memory \<Rightarrow> DWORD \<Rightarrow> ptr \<Rightarrow> ptr \<Rightarrow> bool" where
  "matched_step W mem mhash q base =
     (case ldr_entry_at mem (q - offsetof_InMemoryOrderLinks W) of
        None \<Rightarrow> False
      | Some e \<Rightarrow> unicode_ror13_hash (BaseDllName e) = Some mhash \<and> base = DllBase e)"

text \<open>
  How a traversal that has arrived at the link \<open>q\<close> ends with the outcome \<open>r\<close>: at the
  list head with \<open>NULL\<close>, at a failing read with a fault, or at a matching record with its
  base.
\<close>

definition final_step ::
  "windows_h \<Rightarrow> memory \<Rightarrow> DWORD \<Rightarrow> ptr \<Rightarrow> ptr \<Rightarrow> ptr result \<Rightarrow> bool" where
  "final_step W mem mhash pListHead q r \<longleftrightarrow>
     (q = pListHead \<and> r = Ret NULL)
   \<or> (q \<noteq> pListHead \<and> unreadable_step W mem mhash q \<and> r = Fault)
   \<or> (q \<noteq> pListHead \<and> (\<exists>base. matched_step W mem mhash q base \<and> r = Ret base))"

text \<open>
  The export directory seen as a table: the narrow hash of the \<open>i\<close>-th stored name, and the
  relative offset the \<open>i\<close>-th name designates through the ordinal array.
\<close>

definition export_name_hash ::
  "memory \<Rightarrow> ptr \<Rightarrow> IMAGE_EXPORT_DIRECTORY \<Rightarrow> nat \<Rightarrow> DWORD option" where
  "export_name_hash mem hModule ed i =
     (case dword_at mem (hModule + ucast (AddressOfNames ed) + 4 * of_nat i) of
        None \<Rightarrow> None
      | Some name_rva \<Rightarrow>
          (case string_at mem (hModule + ucast name_rva) of
             None \<Rightarrow> None
           | Some name \<Rightarrow> ror13_hash name))"

definition export_offset ::
  "memory \<Rightarrow> ptr \<Rightarrow> IMAGE_EXPORT_DIRECTORY \<Rightarrow> nat \<Rightarrow> DWORD option" where
  "export_offset mem hModule ed i =
     (case word_at mem (hModule + ucast (AddressOfNameOrdinals ed) + 2 * of_nat i) of
        None \<Rightarrow> None
      | Some ordinal \<Rightarrow>
          dword_at mem (hModule + ucast (AddressOfFunctions ed) + 4 * ucast ordinal))"

text \<open>
  The exhaustive scan in stored order from index \<open>i\<close>: the first index whose name hashes to
  the target gives the module base plus the designated offset; no such index gives
  \<open>NULL\<close>.
\<close>

definition scan_exports ::
  "memory \<Rightarrow> ptr \<Rightarrow> DWORD \<Rightarrow> IMAGE_EXPORT_DIRECTORY \<Rightarrow> nat \<Rightarrow> ptr result" where
  "scan_exports mem hModule fhash ed i =
     (case find (\<lambda>j. export_name_hash mem hModule ed j = Some fhash)
             [i..<unat (NumberOfNames ed)] of
        None \<Rightarrow> Ret NULL
      | Some j \<Rightarrow>
          (case export_offset mem hModule ed j of
             None \<Rightarrow> Fault
           | Some func_rva \<Rightarrow> Ret (hModule + ucast func_rva)))"

text \<open>
  The state invariant of the cache: the array has its declared size, the count is within
  it, and every stored address is a successful resolution.
\<close>

definition cache_inv :: "globals \<Rightarrow> bool" where
  "cache_inv g \<longleftrightarrow>
     length (g_cache g) = MAX_CACHE_ENTRIES \<and>
     g_cache_count g \<le> MAX_CACHE_ENTRIES \<and>
     (\<forall>i<g_cache_count g. address (g_cache g ! i) \<noteq> NULL)"

text \<open>The three assignments and the increment that \<^verbatim>\<open>resolve_cached\<close> performs on a new entry.\<close>

definition cache_insert :: "globals \<Rightarrow> DWORD \<Rightarrow> DWORD \<Rightarrow> ptr \<Rightarrow> globals" where
  "cache_insert g mhash fhash addr =
     g\<lparr>g_cache := (g_cache g)
          [g_cache_count g := \<lparr>module_hash = mhash, function_hash = fhash, address = addr\<rparr>],
       g_cache_count := g_cache_count g + 1\<rparr>"

text \<open>The states the globals can be in: the initial one, and any reached by a returning call.\<close>

inductive reachable :: "globals \<Rightarrow> bool" where
  init: "reachable initial_globals"
| call: "reachable g \<Longrightarrow> resolve_cached W mem g mhash fhash = Some (Ret (a, g')) \<Longrightarrow> reachable g'"

subsection \<open>Example processes\<close>

text \<open>
  A process with two loaded modules. The first, \<^verbatim>\<open>KERNEL32.DLL\<close> at \<^verbatim>\<open>0x10000\<close>, stores
  its two export names out of alphabetical order; the second is \<^verbatim>\<open>user32.dll\<close> at
  \<^verbatim>\<open>0x20000\<close>.
\<close>

definition example_process :: memory where
  "example_process =
     \<lparr>Ldr = 0x1000,
      list_entry_at = [0x1020 \<mapsto> 0x2010, 0x2010 \<mapsto> 0x3010, 0x3010 \<mapsto> 0x1020],
      ldr_entry_at =
        [0x2000 \<mapsto> \<lparr>DllBase = 0x10000, BaseDllName = w_str ''KERNEL32.DLL''\<rparr>,
         0x3000 \<mapsto> \<lparr>DllBase = 0x20000, BaseDllName = w_str ''user32.dll''\<rparr>],
      dos_header_at =
        [0x10000 \<mapsto> \<lparr>e_magic = 0x5A4D, e_lfanew = 0x80\<rparr>,
         0x20000 \<mapsto> \<lparr>e_magic = 0x5A4D, e_lfanew = 0x80\<rparr>],
      nt_headers_at =
        [0x10080 \<mapsto> \<lparr>Signature = 0x4550, ExportDirectory_VirtualAddress = 0x200\<rparr>,
         0x20080 \<mapsto> \<lparr>Signature = 0x4550, ExportDirectory_VirtualAddress = 0x200\<rparr>],
      export_directory_at =
        [0x10200 \<mapsto> \<lparr>NumberOfNames = 2, AddressOfFunctions = 0x300,
                      AddressOfNames = 0x320, AddressOfNameOrdinals = 0x340\<rparr>,
         0x20200 \<mapsto> \<lparr>NumberOfNames = 1, AddressOfFunctions = 0x300,
                      AddressOfNames = 0x320, AddressOfNameOrdinals = 0x340\<rparr>],
      dword_at =
        [0x10300 \<mapsto> 0x1111, 0x10304 \<mapsto> 0x2222, 0x10320 \<mapsto> 0x400, 0x10324 \<mapsto> 0x410,
         0x20300 \<mapsto> 0x3333, 0x20320 \<mapsto> 0x400],
      word_at = [0x10340 \<mapsto> 1, 0x10342 \<mapsto> 0, 0x20340 \<mapsto> 0],
      string_at =
        [0x10400 \<mapsto> c_str ''VirtualAlloc'', 0x10410 \<mapsto> c_str ''CreateThread'',
         0x20400 \<mapsto> c_str ''MessageBoxA'']\<rparr>"

text \<open>The same process with a damaged DOS signature, a damaged NT signature, and no export directory.\<close>

definition bad_dos_process :: memory where
  "bad_dos_process =
     example_process\<lparr>dos_header_at := [0x10000 \<mapsto> \<lparr>e_magic = 0x4D5A, e_lfanew = 0x80\<rparr>]\<rparr>"

definition bad_nt_process :: memory where
  "bad_nt_process =
     example_process\<lparr>nt_headers_at :=
       [0x10080 \<mapsto> \<lparr>Signature = 0x5045, ExportDirectory_VirtualAddress = 0x200\<rparr>]\<rparr>"

definition no_exports_process :: memory where
  "no_exports_process =
     example_process\<lparr>nt_headers_at :=
       [0x10080 \<mapsto> \<lparr>Signature = 0x4550, ExportDirectory_VirtualAddress = 0\<rparr>]\<rparr>"

text \<open>A process whose loader data pointer is null; nothing is mapped at low addresses.\<close>

definition null_ldr_process :: memory where
  "null_ldr_process =
     \<lparr>Ldr = NULL, list_entry_at = Map.empty, ldr_entry_at = Map.empty,
      dos_header_at = Map.empty, nt_headers_at = Map.empty, export_directory_at = Map.empty,
      dword_at = Map.empty, word_at = Map.empty, string_at = Map.empty\<rparr>"

text \<open>A process whose module list is still empty: the list head links to itself.\<close>

definition empty_list_process :: memory where
  "empty_list_process = null_ldr_process\<lparr>Ldr := 0x1000, list_entry_at := [0x1020 \<mapsto> 0x1020]\<rparr>"

text \<open>The example process with the record of its second module unmapped.\<close>

definition second_unmapped_process :: memory where
  "second_unmapped_process =
     example_process\<lparr>ldr_entry_at :=
       [0x2000 \<mapsto> \<lparr>DllBase = 0x10000, BaseDllName = w_str ''KERNEL32.DLL''\<rparr>]\<rparr>"

text \<open>
  A family of processes, each with the example image as its only module, loaded under a
  one-character base name that differs from process to process; \<open>module_key k\<close> is the
  wide hash of the \<open>k\<close>-th name.
\<close>

definition numbered_unit :: "nat \<Rightarrow> WCHAR" where
  "numbered_unit k = of_nat (256 + k)"

definition module_key :: "nat \<Rightarrow> DWORD" where
  "module_key k = ucast (numbered_unit k)"

definition numbered_process :: "nat \<Rightarrow> memory" where
  "numbered_process k =
     example_process
       \<lparr>list_entry_at := [0x1020 \<mapsto> 0x2010, 0x2010 \<mapsto> 0x1020],
        ldr_entry_at :=
          [0x2000 \<mapsto> \<lparr>DllBase = 0x10000,
                       BaseDllName = \<lparr>Length = 2, Buffer = [numbered_unit k]\<rparr>\<rparr>]\<rparr>"

text \<open>
  The globals after resolving \<^verbatim>\<open>CreateThread\<close> in the first \<open>k\<close> processes of the family,
  one call each.
\<close>

fun filled_globals :: "nat \<Rightarrow> globals" where
  "filled_globals 0 = initial_globals"
| "filled_globals (Suc k) = cache_insert (filled_globals k) (module_key k) 0xCA2BD06B 0x11111"

section \<open>Auxiliary facts\<close>

subsection \<open>The rotation and the character conversions\<close>

lemma ror13_rotr: "ror13 h = word_rotr 13 h"
proof (rule bit_word_eqI)
  fix n :: nat
  assume n: "n < LENGTH(32)"
  show "bit (ror13 h) n \<longleftrightarrow> bit (word_rotr 13 h) n"
  proof (cases "n < 19")
    case True
    then have "(n + 13) mod 32 = n + 13" by simp
    with True n show ?thesis
      by (simp add: ror13_def bit_or_iff bit_drop_bit_eq bit_push_bit_iff bit_word_rotr_iff
          add.commute)
  next
    case False
    then have m: "(n + 13) mod 32 = n - 19" using n by (simp add: mod_if)
    have "\<not> bit h (13 + n)"
      using False bit_imp_le_length [of h "13 + n"] by auto
    with False n m show ?thesis
      by (simp add: ror13_def bit_or_iff bit_drop_bit_eq bit_push_bit_iff bit_word_rotr_iff
          add.commute)
  qed
qed

lemma char_to_DWORD: "(scast (c :: c_char) :: DWORD) = of_int (sint c)"
  by (rule scast_eq)

lemma scast_ascii: "c < 0x80 \<Longrightarrow> (scast (c :: c_char) :: DWORD) = ucast c"
proof -
  assume c: "c < 0x80"
  have lo: "- (2 ^ 7) \<le> uint c"
    by (rule order_trans [OF _ uint_ge_0]) simp
  have hi: "uint c < 2 ^ 7"
    using c by (simp add: word_less_def)
  have "signed_take_bit 7 (uint c) = uint c"
    by (rule signed_take_bit_int_eq_self [OF lo hi])
  then have "sint c = uint c" by (simp add: sint_uint)
  then have "(word_of_int (sint c) :: DWORD) = word_of_int (uint c)" by simp
  then show ?thesis by (simp only: scast_eq ucast_eq)
qed

subsection \<open>The narrow hash as a fold\<close>

lemma ror13_hash_loop_fold:
  "0 \<notin> set s \<Longrightarrow>
   ror13_hash_loop h (s @ 0 # rest)
     = Some (foldl (\<lambda>acc c. word_rotr 13 acc + of_int (sint c)) h s)"
proof (induction s arbitrary: h)
  case Nil
  show ?case by simp
next
  case (Cons c s)
  from Cons.prems have c: "c \<noteq> 0" and s: "0 \<notin> set s" by auto
  have "ror13_hash_loop h ((c # s) @ 0 # rest)
      = ror13_hash_loop (ror13 h + scast c) (s @ 0 # rest)"
    using c by simp
  also have "\<dots> = Some (foldl (\<lambda>acc c. word_rotr 13 acc + of_int (sint c)) (ror13 h + scast c) s)"
    by (rule Cons.IH [OF s])
  also have "ror13 h + scast c = word_rotr 13 h + of_int (sint c)"
    by (simp only: ror13_rotr char_to_DWORD)
  finally show ?case by simp
qed

lemma fold_ascii:
  "\<forall>c\<in>set s. c < 0x80 \<Longrightarrow>
   foldl (\<lambda>acc c. word_rotr 13 acc + of_int (sint (c :: c_char))) (h :: DWORD) s
     = foldl (\<lambda>acc c. word_rotr 13 acc + of_nat (unat c)) h s"
  by (induction s arbitrary: h) (simp_all add: scast_ascii)

subsection \<open>The wide hash as a fold\<close>

lemma unicode_ror13_loop_fold:
  "i \<le> unat (Length str) div 2 \<Longrightarrow> i \<le> length (Buffer str) \<Longrightarrow>
   unicode_ror13_loop str i h =
     (if unat (Length str) div 2 \<le> length (Buffer str)
      then Some (foldl (\<lambda>acc c. ror13 acc + ucast (to_upper c)) h
                   (drop i (take (unat (Length str) div 2) (Buffer str))))
      else None)"
proof (induction str i h rule: unicode_ror13_loop.induct)
  case (1 str i hash)
  let ?n = "unat (Length str) div 2"
  let ?b = "Buffer str"
  show ?case
  proof (cases "i < ?n")
    case False
    with "1.prems" have "i = ?n" by simp
    with "1.prems" show ?thesis
      by (subst unicode_ror13_loop.simps) simp
  next
    case n: True
    show ?thesis
    proof (cases "i < length ?b")
      case False
      with "1.prems" have "i = length ?b" by simp
      with n show ?thesis
        by (subst unicode_ror13_loop.simps) simp
    next
      case b: True
      have d: "drop i (take ?n ?b) = ?b ! i # drop (Suc i) (take ?n ?b)"
        using n b by (simp add: Cons_nth_drop_Suc [symmetric])
      have "unicode_ror13_loop str i hash
              = unicode_ror13_loop str (Suc i) (ror13 hash + ucast (to_upper (?b ! i)))"
        using n b by (subst unicode_ror13_loop.simps) simp
      also have "\<dots> = (if ?n \<le> length ?b
          then Some (foldl (\<lambda>acc c. ror13 acc + ucast (to_upper c))
                      (ror13 hash + ucast (to_upper (?b ! i))) (drop (Suc i) (take ?n ?b)))
          else None)"
        using n b by (intro "1.IH") simp_all
      finally show ?thesis by (simp add: d)
    qed
  qed
qed

lemma foldl_to_upper:
  "foldl (\<lambda>acc c. ror13 acc + ucast (to_upper c)) h us
     = foldl (\<lambda>acc c. ror13 acc + ucast c) h (map to_upper us)"
  by (induction us arbitrary: h) simp_all

lemma unicode_ror13_hash_fold:
  "unicode_ror13_hash str =
     (if unat (Length str) div 2 \<le> length (Buffer str)
      then Some (foldl (\<lambda>acc c. ror13 acc + ucast c) 0
                   (map to_upper (take (unat (Length str) div 2) (Buffer str))))
      else None)"
  unfolding unicode_ror13_hash_def
  by (subst unicode_ror13_loop_fold) (simp_all add: foldl_to_upper)

lemma to_upper_upcased: "upcased u u' \<Longrightarrow> to_upper u' = to_upper u"
  unfolding upcased_def to_upper_def
  by (auto simp: word_le_nat_alt unat_sub_if' unat_word_ariths)

lemma map_to_upper_upcased:
  "list_all2 upcased us us' \<Longrightarrow> map to_upper us' = map to_upper us"
  by (induction rule: list_all2_induct) (simp_all add: to_upper_upcased)

lemma to_upper_ucast_non_lower:
  "\<not> (0x61 \<le> c \<and> c \<le> 0x7A) \<Longrightarrow> to_upper (ucast (c :: c_char)) = ucast c"
  unfolding to_upper_def
  by (auto simp: word_le_def uint_up_ucast is_up)

lemma wide_fold_ucast:
  "\<forall>c\<in>set s. \<not> (0x61 \<le> c \<and> c \<le> 0x7A) \<Longrightarrow>
   foldl (\<lambda>acc c. ror13 acc + ucast c) h (map to_upper (map ucast (s :: c_char list)))
     = foldl (\<lambda>acc c. word_rotr 13 acc + of_nat (unat c)) h s"
proof (induction s arbitrary: h)
  case Nil
  show ?case by simp
next
  case (Cons c s)
  have "(ucast (ucast c :: WCHAR) :: DWORD) = ucast c"
    by (rule ucast_up_ucast) (simp add: is_up)
  with Cons show ?case
    by (simp add: to_upper_ucast_non_lower ror13_rotr)
qed

subsection \<open>Hashes of the names in the examples\<close>

lemma hash_VirtualAlloc: "ror13_hash (c_str ''VirtualAlloc'') = Some 0x91AFCA54"
  by (simp add: ror13_hash_def c_str_def ror13_def)

lemma hash_CreateThread: "ror13_hash (c_str ''CreateThread'') = Some 0xCA2BD06B"
  by (simp add: ror13_hash_def c_str_def ror13_def)

lemma hash_MessageBoxA: "ror13_hash (c_str ''MessageBoxA'') = Some 0xBC4DA2A8"
  by (simp add: ror13_hash_def c_str_def ror13_def)

lemma hash_KERNEL32_DLL: "unicode_ror13_hash (w_str ''KERNEL32.DLL'') = Some 0x6E2BCA17"
  by (simp add: unicode_ror13_hash_def w_str_def ror13_def to_upper_def)

lemma hash_user32_dll: "unicode_ror13_hash (w_str ''user32.dll'') = Some 0x32ADE206"
  by (simp add: unicode_ror13_hash_def w_str_def ror13_def to_upper_def)


section \<open>The hash engine\<close>

text \<open>
  Claim C1. The claim says that the hash functions reproduce the three golden constants:
  the narrow hash of \<^verbatim>\<open>VirtualAlloc\<close> is \<^verbatim>\<open>0x91AFCA54\<close>, the narrow hash of
  \<^verbatim>\<open>CreateThread\<close> is \<^verbatim>\<open>0x3F9287AE\<close>, and the wide hash of \<^verbatim>\<open>KERNEL32.DLL\<close> is
  \<^verbatim>\<open>0x6A4ABC5B\<close>. Evaluating the code: the first value is reproduced; for
  \<^verbatim>\<open>CreateThread\<close> the code computes \<^verbatim>\<open>0xCA2BD06B\<close> and for \<^verbatim>\<open>KERNEL32.DLL\<close> it computes
  \<^verbatim>\<open>0x6E2BCA17\<close>, neither of which is the constant the source file defines.
\<close>

theorem golden_vectors_computed:
  "ror13_hash (c_str ''VirtualAlloc'') = Some HASH_VIRTUALALLOC
   \<and> ror13_hash (c_str ''CreateThread'') = Some 0xCA2BD06B
   \<and> ror13_hash (c_str ''CreateThread'') \<noteq> Some HASH_CREATETHREAD
   \<and> unicode_ror13_hash (w_str ''KERNEL32.DLL'') = Some 0x6E2BCA17
   \<and> unicode_ror13_hash (w_str ''KERNEL32.DLL'') \<noteq> Some HASH_KERNEL32"
  by (simp add: hash_VirtualAlloc hash_CreateThread hash_KERNEL32_DLL
      HASH_VIRTUALALLOC_def HASH_CREATETHREAD_def HASH_KERNEL32_def)

text \<open>
  Claim C2, as stated: for every null-terminated byte string the narrow hash is the fold
  that adds each character's unsigned value. This fails for a byte of \<^verbatim>\<open>0x80\<close> or more:
  the code converts a signed \<^verbatim>\<open>char\<close>, so the one-byte string \<^verbatim>\<open>0x80\<close> hashes to
  \<^verbatim>\<open>0xFFFFFF80\<close>, not to \<^verbatim>\<open>0x80\<close>.
\<close>

theorem ror13_hash_high_byte_counterexample:
  "ror13_hash [0x80, 0] = Some 0xFFFFFF80 \<and> ror13_hash [0x80, 0] \<noteq> Some (hash_narrow_spec [0x80])"
  by (simp add: ror13_hash_def ror13_def hash_narrow_spec_def)

text \<open>
  Claim C2, amended. For every byte string \<open>s\<close> without a zero byte, stored with its
  terminator (whatever follows it), the narrow hash returns, with no fault, the fold that
  starts at 0 and for each character rotates the accumulator right by 13 bits and adds the
  character's value as a signed \<^verbatim>\<open>char\<close>, modulo \<open>2 ^ 32\<close>. When every byte is below
  \<^verbatim>\<open>0x80\<close> this is the fold that adds the unsigned value. No case folding takes place:
  \<^verbatim>\<open>Sleep\<close> and \<^verbatim>\<open>sleep\<close> hash differently.
\<close>

theorem ror13_hash_signed_fold:
  "0 \<notin> set s \<Longrightarrow>
     ror13_hash (s @ 0 # rest) = Some (hash_narrow_signed s)
     \<and> ((\<forall>c\<in>set s. c < 0x80) \<longrightarrow> ror13_hash (s @ 0 # rest) = Some (hash_narrow_spec s))
     \<and> ror13_hash (c_str ''Sleep'') \<noteq> ror13_hash (c_str ''sleep'')"
proof -
  assume s: "0 \<notin> set s"
  have "ror13_hash (c_str ''Sleep'') \<noteq> ror13_hash (c_str ''sleep'')"
    by (simp add: ror13_hash_def c_str_def ror13_def)
  moreover have "ror13_hash (s @ 0 # rest) = Some (hash_narrow_signed s)"
    unfolding ror13_hash_def hash_narrow_signed_def by (rule ror13_hash_loop_fold [OF s])
  moreover have "ror13_hash (s @ 0 # rest) = Some (hash_narrow_spec s)"
    if "\<forall>c\<in>set s. c < 0x80"
    unfolding ror13_hash_def hash_narrow_spec_def
    by (simp only: ror13_hash_loop_fold [OF s] fold_ascii [OF that])
  ultimately show ?thesis by blast
qed

text \<open>The amended claim at two inputs: one with a byte above \<^verbatim>\<open>0x7F\<close>, one in ASCII.\<close>

theorem ror13_hash_signed_fold_witness:
  "ror13_hash [0x41, 0xE9, 0] = Some (hash_narrow_signed [0x41, 0xE9])
   \<and> ror13_hash [0x53, 0x6C, 0, 0x41] = Some (hash_narrow_spec [0x53, 0x6C])"
proof -
  have a: "0 \<notin> set [0x41, 0xE9 :: c_char]" and b: "0 \<notin> set [0x53, 0x6C :: c_char]"
    by simp_all
  have c: "\<forall>c\<in>set [0x53, 0x6C :: c_char]. c < 0x80"
    by simp
  from ror13_hash_signed_fold [OF a, of "[]", THEN conjunct1]
  have "ror13_hash [0x41, 0xE9, 0] = Some (hash_narrow_signed [0x41, 0xE9])"
    by simp
  moreover from ror13_hash_signed_fold [OF b, of "[0x41]", THEN conjunct2, THEN conjunct1] c
  have "ror13_hash [0x53, 0x6C, 0, 0x41] = Some (hash_narrow_spec [0x53, 0x6C])"
    by simp
  ultimately show ?thesis by simp
qed

text \<open>
  Claim C3. The wide hash is case-insensitive over ASCII letters: for every sequence of
  code units and every byte length, replacing any of the units that are ASCII lowercase
  letters by their uppercase counterparts leaves the hash unchanged.
\<close>

theorem unicode_ror13_hash_case_insensitive:
  "list_all2 upcased us us' \<Longrightarrow>
   unicode_ror13_hash \<lparr>Length = n, Buffer = us'\<rparr> = unicode_ror13_hash \<lparr>Length = n, Buffer = us\<rparr>"
proof -
  assume r: "list_all2 upcased us us'"
  then have l: "length us' = length us" by (simp add: list_all2_lengthD)
  from r have "list_all2 upcased (take (unat n div 2) us) (take (unat n div 2) us')"
    by (rule list_all2_takeI)
  then have "map to_upper (take (unat n div 2) us') = map to_upper (take (unat n div 2) us)"
    by (rule map_to_upper_upcased)
  with l show ?thesis by (simp add: unicode_ror13_hash_fold)
qed

text \<open>In particular \<^verbatim>\<open>KERNEL32.DLL\<close> and \<^verbatim>\<open>kernel32.dll\<close> have the same wide hash.\<close>

theorem unicode_ror13_hash_case_insensitive_witness:
  "unicode_ror13_hash (w_str ''KERNEL32.DLL'') = unicode_ror13_hash (w_str ''kernel32.dll'')"
  using unicode_ror13_hash_case_insensitive
    [where us = "Buffer (w_str ''kernel32.dll'')" and us' = "Buffer (w_str ''KERNEL32.DLL'')"
      and n = 24]
  by (simp add: w_str_def upcased_def)

text \<open>
  Claim C10. For every ASCII string without lowercase letters (every character below 128
  and outside \<^verbatim>\<open>'a'..'z'\<close>), the narrow hash of its bytes equals the wide hash of its
  16-bit code units. The string is a C string, so it has no zero byte, and its byte length
  as a wide string fits the 16-bit \<open>Length\<close> field.
\<close>

theorem ror13_hash_eq_unicode_on_upper_ascii:
  assumes nul: "0 \<notin> set s"
    and upper: "\<forall>c\<in>set s. c < 0x80 \<and> \<not> (0x61 \<le> c \<and> c \<le> 0x7A)"
    and len: "2 * length s < 65536"
  shows "ror13_hash (s @ [0])
           = unicode_ror13_hash \<lparr>Length = of_nat (2 * length s), Buffer = map ucast s\<rparr>
       \<and> ror13_hash (s @ [0]) = Some (hash_narrow_spec s)"
proof -
  from upper have a: "\<forall>c\<in>set s. c < 0x80"
    and u: "\<forall>c\<in>set s. \<not> (0x61 \<le> c \<and> c \<le> 0x7A)"
    by blast+
  have n: "ror13_hash (s @ [0]) = Some (hash_narrow_spec s)"
    unfolding ror13_hash_def hash_narrow_spec_def
    by (simp only: ror13_hash_loop_fold [OF nul] fold_ascii [OF a])
  have "unat (of_nat (2 * length s) :: USHORT) = (2 * length s) mod 2 ^ LENGTH(16)"
    by (rule unat_of_nat)
  also have "\<dots> = 2 * length s"
    using len by simp
  finally have "unicode_ror13_hash \<lparr>Length = of_nat (2 * length s), Buffer = map ucast s\<rparr>
      = Some (foldl (\<lambda>acc c. ror13 acc + ucast c) 0 (map to_upper (map ucast s)))"
    by (simp add: unicode_ror13_hash_fold)
  also have "\<dots> = Some (hash_narrow_spec s)"
    unfolding hash_narrow_spec_def by (simp only: wide_fold_ucast [OF u])
  finally show ?thesis using n by simp
qed

text \<open>The module name \<^verbatim>\<open>KERNEL32.DLL\<close> hashes to the same value with either function.\<close>

theorem ror13_hash_eq_unicode_on_upper_ascii_witness:
  "ror13_hash (c_str ''KERNEL32.DLL'') = unicode_ror13_hash (w_str ''KERNEL32.DLL'')"
  using ror13_hash_eq_unicode_on_upper_ascii [of "map of_char ''KERNEL32.DLL''"]
  by (simp add: c_str_def w_str_def)


section \<open>The module enumerator\<close>

lemma find_module_loop_list:
  "module_list W mem pListHead p es \<Longrightarrow>
   \<forall>e\<in>set es. unicode_ror13_hash (BaseDllName e) \<noteq> None \<Longrightarrow>
   find_module_loop W mem mhash pListHead p =
     Some (Ret (case first_module mhash es of None \<Rightarrow> NULL | Some e \<Rightarrow> DllBase e))"
proof (induction es arbitrary: p)
  case Nil
  then show ?case
    by (subst find_module_loop.simps) (simp add: first_module_def)
next
  case (Cons e es)
  from Cons.prems(1) obtain n where p: "p \<noteq> pListHead"
    and e: "ldr_entry_at mem (p - offsetof_InMemoryOrderLinks W) = Some e"
    and n: "list_entry_at mem p = Some n" and rest: "module_list W mem pListHead n es"
    by (auto split: option.splits)
  from Cons.prems(2) obtain h where h: "unicode_ror13_hash (BaseDllName e) = Some h"
    by auto
  from Cons.prems(2) have all: "\<forall>e\<in>set es. unicode_ror13_hash (BaseDllName e) \<noteq> None"
    by simp
  show ?case
  proof (cases "h = mhash")
    case True
    with p e h show ?thesis
      by (subst find_module_loop.simps) (simp add: first_module_def)
  next
    case False
    with p e h n have "find_module_loop W mem mhash pListHead p
        = find_module_loop W mem mhash pListHead n"
      by (subst find_module_loop.simps) simp
    also have "\<dots> = Some (Ret (case first_module mhash es of None \<Rightarrow> NULL | Some e \<Rightarrow> DllBase e))"
      by (rule Cons.IH [OF rest all])
    finally show ?thesis using False h by (simp add: first_module_def)
  qed
qed

lemma find_function_by_hash_NULL: "find_function_by_hash W mem NULL fhash = Ret NULL"
  by (simp add: find_function_by_hash_def)

lemma example_module_list:
  "module_list win64 example_process 0x1020 0x2010
     [\<lparr>DllBase = 0x10000, BaseDllName = w_str ''KERNEL32.DLL''\<rparr>,
      \<lparr>DllBase = 0x20000, BaseDllName = w_str ''user32.dll''\<rparr>]"
  by (simp add: example_process_def win64_def)

lemma cache_check_initial: "cache_check initial_globals mhash fhash 0 = Ret None"
  by (subst cache_check.simps) (simp add: initial_globals_def)

text \<open>
  Claim C4. For every target hash and every loaded-module list (a circular list whose
  links and records are readable), \<^verbatim>\<open>find_module_by_hash\<close> walks the list in list order,
  hashes each base name with the wide hash, and returns the base of the first record whose
  hash equals the target; when no record matches after the full traversal it returns
  \<open>NULL\<close>, the not-found value, and \<^verbatim>\<open>resolve_cached\<close>, on a cache miss, returns \<open>NULL\<close>
  as well and leaves the cache as it was.
\<close>

theorem find_module_by_hash_first_match:
  assumes "list_entry_at mem (Ldr mem + offsetof_InMemoryOrderModuleList W) = Some first"
    and "module_list W mem (Ldr mem + offsetof_InMemoryOrderModuleList W) first es"
    and "\<forall>e\<in>set es. unicode_ror13_hash (BaseDllName e) \<noteq> None"
  shows "find_module_by_hash W mem mhash =
           Some (Ret (case first_module mhash es of None \<Rightarrow> NULL | Some e \<Rightarrow> DllBase e))
       \<and> (first_module mhash es = None \<longrightarrow> find_module_by_hash W mem mhash = Some (Ret NULL))
       \<and> (first_module mhash es = None \<and> cache_check g mhash fhash 0 = Ret None \<longrightarrow>
            resolve_cached W mem g mhash fhash = Some (Ret (NULL, g)))"
proof -
  have m: "find_module_by_hash W mem mhash =
           Some (Ret (case first_module mhash es of None \<Rightarrow> NULL | Some e \<Rightarrow> DllBase e))"
    using assms by (simp add: find_module_by_hash_def find_module_loop_list)
  then show ?thesis
    by (simp add: resolve_cached_def find_function_by_hash_NULL)
qed

text \<open>
  In the example process the second module in list order is found by the hash of its
  name, and a hash that matches no module gives \<open>NULL\<close> from both functions.
\<close>

theorem find_module_by_hash_first_match_witness:
  "find_module_by_hash win64 example_process 0x32ADE206 = Some (Ret 0x20000)
   \<and> find_module_by_hash win64 example_process 0x210BEB77 = Some (Ret NULL)
   \<and> resolve_cached win64 example_process initial_globals 0x210BEB77 0x91AFCA54
       = Some (Ret (NULL, initial_globals))"
proof -
  let ?es = "[\<lparr>DllBase = 0x10000, BaseDllName = w_str ''KERNEL32.DLL''\<rparr>,
              \<lparr>DllBase = 0x20000, BaseDllName = w_str ''user32.dll''\<rparr>]"
  have head: "list_entry_at example_process
      (Ldr example_process + offsetof_InMemoryOrderModuleList win64) = Some 0x2010"
    by (simp add: example_process_def win64_def)
  have list: "module_list win64 example_process
      (Ldr example_process + offsetof_InMemoryOrderModuleList win64) 0x2010 ?es"
    using example_module_list by (simp add: example_process_def win64_def)
  have names: "\<forall>e\<in>set ?es. unicode_ror13_hash (BaseDllName e) \<noteq> None"
    by (simp add: hash_KERNEL32_DLL hash_user32_dll)
  have found: "first_module 0x32ADE206 ?es = Some \<lparr>DllBase = 0x20000, BaseDllName = w_str ''user32.dll''\<rparr>"
    by (simp add: first_module_def hash_KERNEL32_DLL hash_user32_dll)
  have missing: "first_module 0x210BEB77 ?es = None"
    by (simp add: first_module_def hash_KERNEL32_DLL hash_user32_dll)
  from find_module_by_hash_first_match [OF head list names, where mhash = "0x32ADE206"] found
  have "find_module_by_hash win64 example_process 0x32ADE206 = Some (Ret 0x20000)"
    by simp
  moreover
  from find_module_by_hash_first_match [OF head list names, where mhash = "0x210BEB77" and g = initial_globals
      and fhash = "0x91AFCA54"]
    missing cache_check_initial
  have "find_module_by_hash win64 example_process 0x210BEB77 = Some (Ret NULL)
      \<and> resolve_cached win64 example_process initial_globals 0x210BEB77 0x91AFCA54
          = Some (Ret (NULL, initial_globals))"
    by simp
  ultimately show ?thesis by simp
qed

text \<open>
  Claim C5, as stated: when the loader data pointer is null or unreadable,
  \<^verbatim>\<open>find_module_by_hash\<close> returns the not-found value without touching the memory. The
  code reads \<^verbatim>\<open>pListHead->Flink\<close> without any check: with a null loader data pointer the
  call ends in an access violation.
\<close>

theorem find_module_by_hash_null_ldr_counterexample:
  "find_module_by_hash win64 null_ldr_process HASH_KERNEL32 = Some Fault
   \<and> find_module_by_hash win64 null_ldr_process HASH_KERNEL32 \<noteq> Some (Ret NULL)"
  by (simp add: find_module_by_hash_def null_ldr_process_def)

text \<open>Three facts about the loop: it passes over skipped records, and how it ends.\<close>

lemma find_module_loop_skip:
  "module_path W mem pListHead p es q \<Longrightarrow> skipped mhash es \<Longrightarrow>
   find_module_loop W mem mhash pListHead p = find_module_loop W mem mhash pListHead q"
proof (induction es arbitrary: p)
  case Nil
  then show ?case by simp
next
  case (Cons e es)
  from Cons.prems(1) obtain n where p: "p \<noteq> pListHead"
    and e: "ldr_entry_at mem (p - offsetof_InMemoryOrderLinks W) = Some e"
    and n: "list_entry_at mem p = Some n" and rest: "module_path W mem pListHead n es q"
    by (auto split: option.splits)
  from Cons.prems(2) obtain h where h: "unicode_ror13_hash (BaseDllName e) = Some h" "h \<noteq> mhash"
    and sk: "skipped mhash es"
    by (auto simp: skipped_def split: option.splits)
  have "find_module_loop W mem mhash pListHead p = find_module_loop W mem mhash pListHead n"
    using p e n h by (subst find_module_loop.simps) simp
  also have "\<dots> = find_module_loop W mem mhash pListHead q"
    by (rule Cons.IH [OF rest sk])
  finally show ?case .
qed

lemma find_module_loop_unreadable:
  "q \<noteq> pListHead \<Longrightarrow> unreadable_step W mem mhash q \<Longrightarrow>
   find_module_loop W mem mhash pListHead q = Some Fault"
  by (subst find_module_loop.simps) (auto simp: unreadable_step_def split: option.splits)

lemma find_module_loop_trace:
  assumes "find_module_loop W mem mhash pListHead p = Some r"
  shows "\<exists>es q. module_path W mem pListHead p es q \<and> skipped mhash es \<and>
          final_step W mem mhash pListHead q r"
proof (rule find_module_loop.raw_induct
    [where P = "\<lambda>W mem mhash pListHead p r.
        \<exists>es q. module_path W mem pListHead p es q \<and> skipped mhash es \<and>
          final_step W mem mhash pListHead q r", OF _ assms], goal_cases)
  case (1 loop W mem mhash pListHead p r)
  note IH = "1"(1) and body = "1"(2)
  show ?case
  proof (cases "p = pListHead")
    case True
    with body have "r = Ret NULL" by simp
    with True have "module_path W mem pListHead p [] p \<and> skipped mhash [] \<and>
        final_step W mem mhash pListHead p r"
      by (simp add: skipped_def final_step_def)
    then show ?thesis by blast
  next
    case False
    show ?thesis
    proof (cases "unreadable_step W mem mhash p \<or> (\<exists>base. matched_step W mem mhash p base)")
      case True
      with False body have "final_step W mem mhash pListHead p r"
        by (auto simp: final_step_def unreadable_step_def matched_step_def
            split: option.splits if_splits)
      then have "module_path W mem pListHead p [] p \<and> skipped mhash [] \<and>
          final_step W mem mhash pListHead p r"
        by (simp add: skipped_def)
      then show ?thesis by blast
    next
      case cont: False
      then obtain e h n where e: "ldr_entry_at mem (p - offsetof_InMemoryOrderLinks W) = Some e"
        and h: "unicode_ror13_hash (BaseDllName e) = Some h" "h \<noteq> mhash"
        and n: "list_entry_at mem p = Some n"
        by (auto simp: unreadable_step_def matched_step_def split: option.splits)
      with False body have "loop W mem mhash pListHead n = Some r"
        by simp
      from IH [OF this] obtain es q where
        path: "module_path W mem pListHead n es q" and sk: "skipped mhash es"
        and fin: "final_step W mem mhash pListHead q r"
        by blast
      from False e n path have "module_path W mem pListHead p (e # es) q" by simp
      moreover from h sk have "skipped mhash (e # es)" by (simp add: skipped_def)
      ultimately show ?thesis using fin by blast
    qed
  qed
qed

lemma example_find_module_missing:
  "find_module_by_hash win64 example_process 0x210BEB77 = Some (Ret NULL)"
  by (simp add: find_module_by_hash_def example_process_def win64_def
      find_module_loop.simps hash_KERNEL32_DLL hash_user32_dll)

text \<open>
  Claim C5, amended. \<^verbatim>\<open>find_module_by_hash\<close> validates nothing: it reads the list anchor
  and whatever the links lead to. When the anchor is unreadable the call faults. When the
  traversal, having passed over any number of readable non-matching records, arrives at a
  link other than the list head whose module record, base name or \<^verbatim>\<open>Flink\<close> it needs and
  cannot read, the call faults. Conversely every call that returns has made a traversal
  whose reads up to its last link all succeeded, and ends there in one of three ways: at
  the list head with \<open>NULL\<close>, at a failing read with a fault, or at a matching record with
  its base; so \<open>NULL\<close> is returned only after a traversal whose reads all succeeded, at the
  list head or from a matching record whose base is \<open>NULL\<close>.
\<close>

theorem find_module_by_hash_unchecked:
  "(list_entry_at mem (Ldr mem + offsetof_InMemoryOrderModuleList W) = None \<longrightarrow>
      find_module_by_hash W mem mhash = Some Fault)
   \<and> (list_entry_at mem (Ldr mem + offsetof_InMemoryOrderModuleList W) = Some first \<and>
      module_path W mem (Ldr mem + offsetof_InMemoryOrderModuleList W) first es q \<and>
      skipped mhash es \<and>
      q \<noteq> Ldr mem + offsetof_InMemoryOrderModuleList W \<and>
      unreadable_step W mem mhash q \<longrightarrow>
      find_module_by_hash W mem mhash = Some Fault)
   \<and> (find_module_by_hash W mem mhash = Some r \<longrightarrow>
      (list_entry_at mem (Ldr mem + offsetof_InMemoryOrderModuleList W) = None \<and> r = Fault)
      \<or> (\<exists>first' es' q'.
            list_entry_at mem (Ldr mem + offsetof_InMemoryOrderModuleList W) = Some first' \<and>
            module_path W mem (Ldr mem + offsetof_InMemoryOrderModuleList W) first' es' q' \<and>
            skipped mhash es' \<and>
            final_step W mem mhash (Ldr mem + offsetof_InMemoryOrderModuleList W) q' r))
   \<and> (find_module_by_hash W mem mhash = Some (Ret NULL) \<longrightarrow>
      (\<exists>first' es' q'.
          list_entry_at mem (Ldr mem + offsetof_InMemoryOrderModuleList W) = Some first' \<and>
          module_path W mem (Ldr mem + offsetof_InMemoryOrderModuleList W) first' es' q' \<and>
          skipped mhash es' \<and>
          (q' = Ldr mem + offsetof_InMemoryOrderModuleList W \<or>
           matched_step W mem mhash q' NULL)))"
proof -
  let ?head = "Ldr mem + offsetof_InMemoryOrderModuleList W"
  have anchor: "find_module_by_hash W mem mhash = Some Fault"
    if "list_entry_at mem ?head = None"
    using that by (simp add: find_module_by_hash_def)
  have link: "find_module_by_hash W mem mhash = Some Fault"
    if "list_entry_at mem ?head = Some first"
      and "module_path W mem ?head first es q" and "skipped mhash es"
      and "q \<noteq> ?head" and "unreadable_step W mem mhash q"
  proof -
    from that(1) have "find_module_by_hash W mem mhash = find_module_loop W mem mhash ?head first"
      by (simp add: find_module_by_hash_def)
    also have "\<dots> = find_module_loop W mem mhash ?head q"
      by (rule find_module_loop_skip [OF that(2,3)])
    also have "\<dots> = Some Fault"
      by (rule find_module_loop_unreadable [OF that(4,5)])
    finally show ?thesis .
  qed
  have trace: "(list_entry_at mem ?head = None \<and> r = Fault)
      \<or> (\<exists>first' es' q'. list_entry_at mem ?head = Some first' \<and>
            module_path W mem ?head first' es' q' \<and> skipped mhash es' \<and>
            final_step W mem mhash ?head q' r)"
    if ret: "find_module_by_hash W mem mhash = Some r" for r
  proof (cases "list_entry_at mem ?head")
    case None
    with ret show ?thesis by (simp add: find_module_by_hash_def)
  next
    case (Some first')
    with ret have "find_module_loop W mem mhash ?head first' = Some r"
      by (simp add: find_module_by_hash_def)
    from find_module_loop_trace [OF this] Some show ?thesis by blast
  qed
  have null: "\<exists>first' es' q'. list_entry_at mem ?head = Some first' \<and>
          module_path W mem ?head first' es' q' \<and> skipped mhash es' \<and>
          (q' = ?head \<or> matched_step W mem mhash q' NULL)"
    if "find_module_by_hash W mem mhash = Some (Ret NULL)"
  proof -
    from trace [OF that] obtain first' es' q' where
      t: "list_entry_at mem ?head = Some first'" "module_path W mem ?head first' es' q'"
        "skipped mhash es'" and f: "final_step W mem mhash ?head q' (Ret NULL)"
      by auto
    from f have "q' = ?head \<or> matched_step W mem mhash q' NULL"
      by (auto simp: final_step_def)
    with t show ?thesis by blast
  qed
  from anchor link trace null show ?thesis by blast
qed

text \<open>
  With a null loader data pointer the anchor is unreadable and the call faults. In the
  process whose second module record is unmapped, the search for the second module passes
  over the first record and faults at the second link. In the example process the search
  for a module that is not loaded returns \<open>NULL\<close>, after a traversal from a readable
  anchor.
\<close>

theorem find_module_by_hash_unchecked_witness:
  "find_module_by_hash win64 null_ldr_process 0x6E2BCA17 = Some Fault
   \<and> find_module_by_hash win64 second_unmapped_process 0x32ADE206 = Some Fault
   \<and> (\<exists>first es q.
        list_entry_at example_process (Ldr example_process + offsetof_InMemoryOrderModuleList win64)
          = Some first \<and>
        module_path win64 example_process
          (Ldr example_process + offsetof_InMemoryOrderModuleList win64) first es q \<and>
        skipped 0x210BEB77 es \<and>
        (q = Ldr example_process + offsetof_InMemoryOrderModuleList win64 \<or>
         matched_step win64 example_process 0x210BEB77 q NULL))"
proof -
  have a: "list_entry_at null_ldr_process
      (Ldr null_ldr_process + offsetof_InMemoryOrderModuleList win64) = None"
    by (simp add: null_ldr_process_def)
  let ?m = "second_unmapped_process"
  let ?k = "\<lparr>DllBase = 0x10000, BaseDllName = w_str ''KERNEL32.DLL''\<rparr>"
  have b: "list_entry_at ?m (Ldr ?m + offsetof_InMemoryOrderModuleList win64) = Some 0x2010"
    "module_path win64 ?m (Ldr ?m + offsetof_InMemoryOrderModuleList win64) 0x2010 [?k] 0x3010"
    "skipped 0x32ADE206 [?k]"
    "0x3010 \<noteq> Ldr ?m + offsetof_InMemoryOrderModuleList win64"
    "unreadable_step win64 ?m 0x32ADE206 0x3010"
    by (simp_all add: second_unmapped_process_def example_process_def win64_def skipped_def
        unreadable_step_def hash_KERNEL32_DLL)
  from find_module_by_hash_unchecked
    [where mem = null_ldr_process and W = win64 and mhash = "0x6E2BCA17"] a
  have "find_module_by_hash win64 null_ldr_process 0x6E2BCA17 = Some Fault"
    by blast
  moreover
  from find_module_by_hash_unchecked
    [where mem = ?m and W = win64 and mhash = "0x32ADE206" and first = "0x2010"
      and es = "[?k]" and q = "0x3010"] b
  have "find_module_by_hash win64 ?m 0x32ADE206 = Some Fault"
    by blast
  moreover
  from find_module_by_hash_unchecked
    [where mem = example_process and W = win64 and mhash = "0x210BEB77"]
    example_find_module_missing
  have "\<exists>first es q.
        list_entry_at example_process (Ldr example_process + offsetof_InMemoryOrderModuleList win64)
          = Some first \<and>
        module_path win64 example_process
          (Ldr example_process + offsetof_InMemoryOrderModuleList win64) first es q \<and>
        skipped 0x210BEB77 es \<and>
        (q = Ldr example_process + offsetof_InMemoryOrderModuleList win64 \<or>
         matched_step win64 example_process 0x210BEB77 q NULL)"
    by blast
  ultimately show ?thesis by blast
qed

section \<open>The export scanner\<close>

lemma find_function_loop_scan:
  "\<forall>j<unat (NumberOfNames ed). export_name_hash mem hModule ed j \<noteq> None \<Longrightarrow>
   find_function_loop mem hModule fhash ed i = scan_exports mem hModule fhash ed i"
proof (induction mem hModule fhash ed i rule: find_function_loop.induct)
  case (1 mem hModule fhash ed i)
  let ?N = "unat (NumberOfNames ed)"
  show ?case
  proof (cases "i < ?N")
    case False
    then show ?thesis
      by (subst find_function_loop.simps) (simp add: scan_exports_def)
  next
    case True
    with "1.prems" obtain h where h: "export_name_hash mem hModule ed i = Some h"
      by auto
    then obtain name_rva funcName where
      r: "dword_at mem (hModule + ucast (AddressOfNames ed) + 4 * of_nat i) = Some name_rva"
      and s: "string_at mem (hModule + ucast name_rva) = Some funcName"
      and f: "ror13_hash funcName = Some h"
      by (auto simp: export_name_hash_def split: option.splits)
    have upt: "[i..<?N] = i # [Suc i..<?N]"
      using True by (rule upt_conv_Cons)
    show ?thesis
    proof (cases "h = fhash")
      case True
      with \<open>i < ?N\<close> r s f h show ?thesis
        by (subst find_function_loop.simps)
          (simp add: scan_exports_def upt export_offset_def split: option.splits)
    next
      case False
      with \<open>i < ?N\<close> r s f have "find_function_loop mem hModule fhash ed i
          = find_function_loop mem hModule fhash ed (Suc i)"
        by (subst find_function_loop.simps) simp
      also have "\<dots> = scan_exports mem hModule fhash ed (Suc i)"
        using \<open>i < ?N\<close> r s f False "1.prems"
        by (intro "1.IH") simp_all
      also have "\<dots> = scan_exports mem hModule fhash ed i"
        using False h by (simp add: scan_exports_def upt)
      finally show ?thesis .
    qed
  qed
qed

text \<open>
  Claim C6. For every module reference (a non-null base with a readable DOS header) and
  target hash, \<^verbatim>\<open>find_function_by_hash\<close> first checks the DOS signature and then the NT
  signature at the offset the DOS header gives; either mismatch returns \<open>NULL\<close> (the
  invalid-image outcome). A zero export-directory offset returns \<open>NULL\<close> (the
  function-not-found outcome). Otherwise, the names being readable, the result is that of
  the exhaustive scan in stored array order: the module base plus the offset that the
  first name hashing to the target designates through the ordinal array, and \<open>NULL\<close>
  when no name in the whole array matches.
\<close>

theorem find_function_by_hash_outcomes:
  assumes "hModule \<noteq> NULL" and "dos_header_at mem hModule = Some dos"
  shows "(e_magic dos \<noteq> IMAGE_DOS_SIGNATURE W \<longrightarrow>
            find_function_by_hash W mem hModule fhash = Ret NULL)
       \<and> (e_magic dos = IMAGE_DOS_SIGNATURE W \<and>
          nt_headers_at mem (hModule + scast (e_lfanew dos)) = Some nt \<longrightarrow>
            (Signature nt \<noteq> IMAGE_NT_SIGNATURE W \<longrightarrow>
               find_function_by_hash W mem hModule fhash = Ret NULL)
          \<and> (Signature nt = IMAGE_NT_SIGNATURE W \<and> ExportDirectory_VirtualAddress nt = 0 \<longrightarrow>
               find_function_by_hash W mem hModule fhash = Ret NULL)
          \<and> (Signature nt = IMAGE_NT_SIGNATURE W \<and> ExportDirectory_VirtualAddress nt \<noteq> 0 \<and>
             export_directory_at mem (hModule + ucast (ExportDirectory_VirtualAddress nt))
               = Some ed \<and>
             (\<forall>j<unat (NumberOfNames ed). export_name_hash mem hModule ed j \<noteq> None) \<longrightarrow>
               find_function_by_hash W mem hModule fhash = scan_exports mem hModule fhash ed 0))"
  using assms by (simp add: find_function_by_hash_def find_function_loop_scan)

lemma example_export_hashes:
  "export_name_hash example_process 0x10000
     \<lparr>NumberOfNames = 2, AddressOfFunctions = 0x300, AddressOfNames = 0x320,
      AddressOfNameOrdinals = 0x340\<rparr> 0 = Some 0x91AFCA54"
  "export_name_hash example_process 0x10000
     \<lparr>NumberOfNames = 2, AddressOfFunctions = 0x300, AddressOfNames = 0x320,
      AddressOfNameOrdinals = 0x340\<rparr> (Suc 0) = Some 0xCA2BD06B"
  by (simp_all add: export_name_hash_def example_process_def hash_VirtualAlloc hash_CreateThread)

lemma example_export_offsets:
  "export_offset example_process 0x10000
     \<lparr>NumberOfNames = 2, AddressOfFunctions = 0x300, AddressOfNames = 0x320,
      AddressOfNameOrdinals = 0x340\<rparr> 0 = Some 0x2222"
  "export_offset example_process 0x10000
     \<lparr>NumberOfNames = 2, AddressOfFunctions = 0x300, AddressOfNames = 0x320,
      AddressOfNameOrdinals = 0x340\<rparr> (Suc 0) = Some 0x1111"
  by (simp_all add: export_offset_def example_process_def)

text \<open>
  The outcomes on the example image at \<^verbatim>\<open>0x10000\<close>: a damaged DOS signature, a
  damaged NT signature, no export directory, the second stored name found through the
  ordinal array, and a hash that no name has.
\<close>

theorem find_function_by_hash_outcomes_witness:
  "find_function_by_hash win64 bad_dos_process 0x10000 0xCA2BD06B = Ret NULL
   \<and> find_function_by_hash win64 bad_nt_process 0x10000 0xCA2BD06B = Ret NULL
   \<and> find_function_by_hash win64 no_exports_process 0x10000 0xCA2BD06B = Ret NULL
   \<and> find_function_by_hash win64 example_process 0x10000 0xCA2BD06B = Ret 0x11111
   \<and> find_function_by_hash win64 example_process 0x10000 0x12345678 = Ret NULL"
proof -
  let ?ed = "\<lparr>NumberOfNames = 2, AddressOfFunctions = 0x300, AddressOfNames = 0x320,
              AddressOfNameOrdinals = 0x340\<rparr>"
  have base: "(0x10000 :: ptr) \<noteq> NULL"
    by (simp add: NULL_def)
  have dos: "dos_header_at example_process 0x10000 = Some \<lparr>e_magic = 0x5A4D, e_lfanew = 0x80\<rparr>"
    "dos_header_at bad_nt_process 0x10000 = Some \<lparr>e_magic = 0x5A4D, e_lfanew = 0x80\<rparr>"
    "dos_header_at no_exports_process 0x10000 = Some \<lparr>e_magic = 0x5A4D, e_lfanew = 0x80\<rparr>"
    "dos_header_at bad_dos_process 0x10000 = Some \<lparr>e_magic = 0x4D5A, e_lfanew = 0x80\<rparr>"
    by (simp_all add: example_process_def bad_nt_process_def no_exports_process_def
        bad_dos_process_def)
  have nt: "nt_headers_at example_process (0x10000 + scast (0x80 :: 32 word))
        = Some \<lparr>Signature = 0x4550, ExportDirectory_VirtualAddress = 0x200\<rparr>"
    "nt_headers_at bad_nt_process (0x10000 + scast (0x80 :: 32 word))
        = Some \<lparr>Signature = 0x5045, ExportDirectory_VirtualAddress = 0x200\<rparr>"
    "nt_headers_at no_exports_process (0x10000 + scast (0x80 :: 32 word))
        = Some \<lparr>Signature = 0x4550, ExportDirectory_VirtualAddress = 0\<rparr>"
    by (simp_all add: example_process_def bad_nt_process_def no_exports_process_def)
  have ed: "export_directory_at example_process (0x10000 + ucast (0x200 :: DWORD)) = Some ?ed"
    by (simp add: example_process_def)
  have n: "unat (NumberOfNames ?ed) = Suc (Suc 0)"
    by simp
  have names: "\<forall>j<unat (NumberOfNames ?ed). export_name_hash example_process 0x10000 ?ed j \<noteq> None"
    unfolding n by (simp add: less_Suc_eq example_export_hashes)
  have scan: "scan_exports example_process 0x10000 0xCA2BD06B ?ed 0 = Ret 0x11111"
    "scan_exports example_process 0x10000 0x12345678 ?ed 0 = Ret NULL"
    unfolding scan_exports_def n
    by (simp_all add: example_export_hashes example_export_offsets)
  from find_function_by_hash_outcomes [OF base dos(4), where W = win64 and fhash = "0xCA2BD06B"]
  have "find_function_by_hash win64 bad_dos_process 0x10000 0xCA2BD06B = Ret NULL"
    by (simp add: win64_def)
  moreover
  from find_function_by_hash_outcomes [OF base dos(2), where W = win64 and fhash = "0xCA2BD06B"
      and nt = "\<lparr>Signature = 0x5045, ExportDirectory_VirtualAddress = 0x200\<rparr>"]
    nt(2)
  have "find_function_by_hash win64 bad_nt_process 0x10000 0xCA2BD06B = Ret NULL"
    by (simp add: win64_def)
  moreover
  from find_function_by_hash_outcomes [OF base dos(3), where W = win64 and fhash = "0xCA2BD06B"
      and nt = "\<lparr>Signature = 0x4550, ExportDirectory_VirtualAddress = 0\<rparr>"]
    nt(3)
  have "find_function_by_hash win64 no_exports_process 0x10000 0xCA2BD06B = Ret NULL"
    by (simp add: win64_def)
  moreover
  from find_function_by_hash_outcomes [OF base dos(1), where W = win64 and fhash = "0xCA2BD06B"
      and nt = "\<lparr>Signature = 0x4550, ExportDirectory_VirtualAddress = 0x200\<rparr>" and ed = ?ed]
    nt(1) ed names scan(1)
  have "find_function_by_hash win64 example_process 0x10000 0xCA2BD06B = Ret 0x11111"
    by (simp add: win64_def)
  moreover
  from find_function_by_hash_outcomes [OF base dos(1), where W = win64 and fhash = "0x12345678"
      and nt = "\<lparr>Signature = 0x4550, ExportDirectory_VirtualAddress = 0x200\<rparr>" and ed = ?ed]
    nt(1) ed names scan(2)
  have "find_function_by_hash win64 example_process 0x10000 0x12345678 = Ret NULL"
    by (simp add: win64_def)
  ultimately show ?thesis by simp
qed


section \<open>The resolution cache\<close>

lemma cache_check_miss:
  "g_cache_count g \<le> length (g_cache g) \<Longrightarrow>
   \<forall>j. i \<le> j \<and> j < g_cache_count g \<longrightarrow>
       \<not> (module_hash (g_cache g ! j) = mhash \<and> function_hash (g_cache g ! j) = fhash) \<Longrightarrow>
   cache_check g mhash fhash i = Ret None"
proof (induction g mhash fhash i rule: cache_check.induct)
  case (1 g mhash fhash i)
  show ?case
  proof (cases "i < g_cache_count g")
    case False
    then show ?thesis by (subst cache_check.simps) simp
  next
    case True
    with "1.prems" have l: "i < length (g_cache g)"
      and n: "\<not> (module_hash (g_cache g ! i) = mhash \<and> function_hash (g_cache g ! i) = fhash)"
      by auto
    have "cache_check g mhash fhash i = cache_check g mhash fhash (Suc i)"
      using True l n by (subst cache_check.simps) auto
    also have "\<dots> = Ret None"
      using True l n "1.prems" by (intro "1.IH") auto
    finally show ?thesis .
  qed
qed

lemma cache_check_hit_entry:
  "cache_check g mhash fhash i = Ret (Some a) \<Longrightarrow>
   \<exists>j. i \<le> j \<and> j < g_cache_count g \<and> a = address (g_cache g ! j)"
proof (induction g mhash fhash i rule: cache_check.induct)
  case (1 g mhash fhash i)
  from "1.prems" have c: "i < g_cache_count g" and l: "i < length (g_cache g)"
    by (subst (asm) cache_check.simps, simp split: if_splits)+
  show ?case
  proof (cases "module_hash (g_cache g ! i) = mhash \<and> function_hash (g_cache g ! i) = fhash")
    case True
    with "1.prems" c l have "a = address (g_cache g ! i)"
      by (subst (asm) cache_check.simps) simp
    with c show ?thesis by auto
  next
    case False
    with "1.prems" c l have "cache_check g mhash fhash (Suc i) = Ret (Some a)"
      by (subst (asm) cache_check.simps) auto
    with c l False have "\<exists>j. Suc i \<le> j \<and> j < g_cache_count g \<and> a = address (g_cache g ! j)"
      by (intro "1.IH") auto
    then obtain j where "Suc i \<le> j" and j: "j < g_cache_count g" "a = address (g_cache g ! j)"
      by blast
    then have "i \<le> j" by simp
    with j show ?thesis by blast
  qed
qed

lemma cache_check_after_insert:
  "cache_check g mhash fhash i = Ret None \<Longrightarrow> i \<le> g_cache_count g \<Longrightarrow>
   g_cache_count g < length (g_cache g) \<Longrightarrow>
   cache_check (cache_insert g mhash fhash a) mhash fhash i = Ret (Some a)"
proof (induction g mhash fhash i rule: cache_check.induct)
  case (1 g mhash fhash i)
  let ?g' = "cache_insert g mhash fhash a"
  have cnt: "g_cache_count ?g' = Suc (g_cache_count g)"
    and len: "length (g_cache ?g') = length (g_cache g)"
    by (simp_all add: cache_insert_def)
  show ?case
  proof (cases "i < g_cache_count g")
    case False
    with "1.prems" have i: "i = g_cache_count g" by simp
    with "1.prems" show ?thesis
      by (subst cache_check.simps) (simp add: cache_insert_def)
  next
    case True
    with "1.prems" have l: "i < length (g_cache g)" by simp
    from "1.prems"(1) True l
    have n: "\<not> (module_hash (g_cache g ! i) = mhash \<and> function_hash (g_cache g ! i) = fhash)"
      and r: "cache_check g mhash fhash (Suc i) = Ret None"
      by (subst (asm) cache_check.simps, simp split: if_splits)+
    have same: "g_cache ?g' ! i = g_cache g ! i"
      using True by (simp add: cache_insert_def)
    have "cache_check ?g' mhash fhash i = cache_check ?g' mhash fhash (Suc i)"
      using True l n same cnt len by (subst cache_check.simps) auto
    also have "\<dots> = Ret (Some a)"
      using True l n r "1.prems" by (intro "1.IH") auto
    finally show ?thesis .
  qed
qed

lemma resolve_cached_hit:
  "cache_check g mhash fhash 0 = Ret (Some a) \<Longrightarrow>
   resolve_cached W mem g mhash fhash = Some (Ret (a, g))"
  by (simp add: resolve_cached_def)

lemma resolve_cached_miss:
  "cache_check g mhash fhash 0 = Ret None \<Longrightarrow>
   find_module_by_hash W mem mhash = Some (Ret hModule) \<Longrightarrow>
   find_function_by_hash W mem hModule fhash = Ret addr \<Longrightarrow>
   g_cache_count g < MAX_CACHE_ENTRIES \<longrightarrow> g_cache_count g < length (g_cache g) \<Longrightarrow>
   resolve_cached W mem g mhash fhash =
     Some (Ret (addr, if addr \<noteq> NULL \<and> g_cache_count g < MAX_CACHE_ENTRIES
                      then cache_insert g mhash fhash addr else g))"
  by (simp add: resolve_cached_def cache_insert_def)

lemma resolve_cached_cases:
  assumes "resolve_cached W mem g mhash fhash = Some (Ret (a, g'))"
  shows "(cache_check g mhash fhash 0 = Ret (Some a) \<and> g' = g)
       \<or> (cache_check g mhash fhash 0 = Ret None \<and>
          (\<exists>hModule. find_module_by_hash W mem mhash = Some (Ret hModule) \<and>
                     find_function_by_hash W mem hModule fhash = Ret a) \<and>
          (if a \<noteq> NULL \<and> g_cache_count g < MAX_CACHE_ENTRIES
           then g_cache_count g < length (g_cache g) \<and> g' = cache_insert g mhash fhash a
           else g' = g))"
  using assms
  by (auto simp: resolve_cached_def cache_insert_def split: result.splits option.splits if_splits)

lemma cache_inv_initial: "cache_inv initial_globals"
  by (simp add: cache_inv_def initial_globals_def)

lemma cache_inv_insert:
  assumes "cache_inv g" and "g_cache_count g < MAX_CACHE_ENTRIES" and "a \<noteq> NULL"
  shows "cache_inv (cache_insert g mhash fhash a)"
proof -
  let ?g' = "cache_insert g mhash fhash a"
  from assms have len: "length (g_cache g) = MAX_CACHE_ENTRIES"
    and old: "\<forall>i<g_cache_count g. address (g_cache g ! i) \<noteq> NULL"
    by (simp_all add: cache_inv_def)
  have "address (g_cache ?g' ! i) \<noteq> NULL" if "i < g_cache_count ?g'" for i
  proof (cases "i = g_cache_count g")
    case True
    with assms len show ?thesis by (simp add: cache_insert_def)
  next
    case False
    with that have "i < g_cache_count g" by (simp add: cache_insert_def)
    with old False show ?thesis by (simp add: cache_insert_def)
  qed
  with assms len show ?thesis
    by (simp add: cache_inv_def cache_insert_def)
qed

lemma resolve_cached_step:
  assumes inv: "cache_inv g" and r: "resolve_cached W mem g mhash fhash = Some (Ret (a, g'))"
  shows "cache_inv g' \<and> g_cache_count g \<le> g_cache_count g'
       \<and> (\<forall>i<g_cache_count g. g_cache g' ! i = g_cache g ! i)
       \<and> (g_cache_count g = MAX_CACHE_ENTRIES \<longrightarrow> g' = g)"
proof (cases "g' = g")
  case True
  with inv show ?thesis by simp
next
  case False
  with resolve_cached_cases [OF r]
  have a: "a \<noteq> NULL" and room: "g_cache_count g < MAX_CACHE_ENTRIES"
    and g': "g' = cache_insert g mhash fhash a"
    by (auto split: if_splits)
  from cache_inv_insert [OF inv room a] g' have "cache_inv g'" by simp
  moreover have "g_cache_count g \<le> g_cache_count g'"
    using g' by (simp add: cache_insert_def)
  moreover have "\<forall>i<g_cache_count g. g_cache g' ! i = g_cache g ! i"
    using g' by (simp add: cache_insert_def)
  ultimately show ?thesis using room by simp
qed

lemma reachable_cache_inv: "reachable g \<Longrightarrow> cache_inv g"
proof (induction rule: reachable.induct)
  case init
  show ?case by (rule cache_inv_initial)
next
  case (call g W mem mhash fhash a g')
  from resolve_cached_step [OF call.IH call.hyps(2)] show ?case by simp
qed

subsection \<open>The example process, resolved\<close>

lemma example_find_module:
  "find_module_by_hash win64 example_process 0x6E2BCA17 = Some (Ret 0x10000)"
  by (simp add: find_module_by_hash_def example_process_def win64_def
      find_module_loop.simps hash_KERNEL32_DLL)

lemma example_find_function:
  "find_function_by_hash win64 example_process 0x10000 0xCA2BD06B = Ret 0x11111"
  by (simp add: find_function_by_hash_def example_process_def win64_def NULL_def
      find_function_loop.simps hash_VirtualAlloc hash_CreateThread)

lemma example_resolve:
  "resolve_cached win64 example_process initial_globals 0x6E2BCA17 0xCA2BD06B
     = Some (Ret (0x11111, cache_insert initial_globals 0x6E2BCA17 0xCA2BD06B 0x11111))"
proof -
  have "g_cache_count initial_globals < MAX_CACHE_ENTRIES \<longrightarrow>
      g_cache_count initial_globals < length (g_cache initial_globals)"
    by (simp add: initial_globals_def)
  from resolve_cached_miss [OF cache_check_initial example_find_module example_find_function this]
  show ?thesis by (simp add: NULL_def initial_globals_def MAX_CACHE_ENTRIES_def)
qed

lemma example_find_function_second:
  "find_function_by_hash win64 example_process 0x10000 0x91AFCA54 = Ret 0x12222"
  by (simp add: find_function_by_hash_def example_process_def win64_def NULL_def
      find_function_loop.simps hash_VirtualAlloc)

lemma example_resolve_second:
  "resolve_cached win64 example_process
     (cache_insert initial_globals 0x6E2BCA17 0xCA2BD06B 0x11111) 0x6E2BCA17 0x91AFCA54
     = Some (Ret (0x12222,
         cache_insert (cache_insert initial_globals 0x6E2BCA17 0xCA2BD06B 0x11111)
           0x6E2BCA17 0x91AFCA54 0x12222))"
proof -
  let ?g1 = "cache_insert initial_globals 0x6E2BCA17 0xCA2BD06B 0x11111"
  have c: "g_cache_count ?g1 = Suc 0" and l: "length (g_cache ?g1) = 256"
    by (simp_all add: cache_insert_def initial_globals_def MAX_CACHE_ENTRIES_def)
  have e: "g_cache ?g1 ! 0
      = \<lparr>module_hash = 0x6E2BCA17, function_hash = 0xCA2BD06B, address = 0x11111\<rparr>"
    by (simp add: cache_insert_def initial_globals_def MAX_CACHE_ENTRIES_def)
  have miss: "cache_check ?g1 0x6E2BCA17 0x91AFCA54 0 = Ret None"
    by (rule cache_check_miss) (simp_all add: c l e)
  have "g_cache_count ?g1 < MAX_CACHE_ENTRIES \<longrightarrow> g_cache_count ?g1 < length (g_cache ?g1)"
    by (simp add: c l)
  from resolve_cached_miss [OF miss example_find_module example_find_function_second this]
  show ?thesis by (simp add: NULL_def c MAX_CACHE_ENTRIES_def)
qed

lemma empty_list_resolve:
  "resolve_cached win64 empty_list_process initial_globals 0x6E2BCA17 0xCA2BD06B
     = Some (Ret (NULL, initial_globals))"
proof -
  have "find_module_by_hash win64 empty_list_process 0x6E2BCA17 = Some (Ret NULL)"
    by (simp add: find_module_by_hash_def empty_list_process_def null_ldr_process_def win64_def
        find_module_loop.simps)
  then show ?thesis
    by (simp add: resolve_cached_def cache_check_initial find_function_by_hash_NULL)
qed

subsection \<open>A reachable full cache\<close>

lemma unat_numbered_unit:
  assumes "k < MAX_CACHE_ENTRIES"
  shows "unat (numbered_unit k) = 256 + k"
proof -
  have "unat (of_nat (256 + k) :: WCHAR) = (256 + k) mod 2 ^ LENGTH(16)"
    by (rule unat_of_nat)
  also have "\<dots> = 256 + k"
    using assms by (simp add: MAX_CACHE_ENTRIES_def)
  finally show ?thesis by (simp only: numbered_unit_def)
qed

lemma unat_module_key:
  assumes "k < MAX_CACHE_ENTRIES"
  shows "unat (module_key k) = 256 + k"
proof -
  have "uint (ucast (numbered_unit k) :: DWORD) = uint (numbered_unit k)"
    by (rule uint_up_ucast) (simp add: is_up)
  then have "unat (module_key k) = unat (numbered_unit k)"
    unfolding module_key_def by (simp only: unat_eq_nat_uint)
  then show ?thesis by (simp only: unat_numbered_unit [OF assms])
qed

lemma module_key_inj:
  assumes "j < MAX_CACHE_ENTRIES" and "k < MAX_CACHE_ENTRIES" and "module_key j = module_key k"
  shows "j = k"
proof -
  from assms(3) have "unat (module_key j) = unat (module_key k)" by simp
  then have "256 + j = 256 + k"
    by (simp only: unat_module_key [OF assms(1)] unat_module_key [OF assms(2)])
  then show ?thesis by simp
qed

lemma module_key_not_kernel32:
  assumes "k < MAX_CACHE_ENTRIES"
  shows "module_key k \<noteq> 0x6E2BCA17"
proof
  assume "module_key k = 0x6E2BCA17"
  then have "unat (module_key k) = unat (0x6E2BCA17 :: DWORD)" by simp
  then have "256 + k = unat (0x6E2BCA17 :: DWORD)"
    by (simp only: unat_module_key [OF assms])
  with assms show False by (simp add: MAX_CACHE_ENTRIES_def)
qed

lemma to_upper_numbered_unit:
  assumes "k < MAX_CACHE_ENTRIES"
  shows "to_upper (numbered_unit k) = numbered_unit k"
proof -
  have "\<not> numbered_unit k \<le> 0x7A"
    by (simp add: word_le_nat_alt unat_numbered_unit [OF assms])
  then show ?thesis by (simp add: to_upper_def)
qed

lemma numbered_hash:
  assumes "k < MAX_CACHE_ENTRIES"
  shows "unicode_ror13_hash \<lparr>Length = 2, Buffer = [numbered_unit k]\<rparr> = Some (module_key k)"
  by (simp add: unicode_ror13_hash_fold to_upper_numbered_unit [OF assms] ror13_def module_key_def)

lemma numbered_find_module:
  assumes "k < MAX_CACHE_ENTRIES"
  shows "find_module_by_hash win64 (numbered_process k) (module_key k) = Some (Ret 0x10000)"
  by (simp add: find_module_by_hash_def numbered_process_def example_process_def win64_def
      find_module_loop.simps numbered_hash [OF assms])

lemma numbered_find_function:
  "find_function_by_hash win64 (numbered_process k) 0x10000 0xCA2BD06B = Ret 0x11111"
  by (simp add: find_function_by_hash_def numbered_process_def example_process_def win64_def
      NULL_def find_function_loop.simps hash_VirtualAlloc hash_CreateThread)

lemma filled_globals_shape:
  "k \<le> MAX_CACHE_ENTRIES \<Longrightarrow>
   g_cache_count (filled_globals k) = k \<and>
   length (g_cache (filled_globals k)) = MAX_CACHE_ENTRIES \<and>
   (\<forall>j<k. g_cache (filled_globals k) ! j
       = \<lparr>module_hash = module_key j, function_hash = 0xCA2BD06B, address = 0x11111\<rparr>)"
proof (induction k)
  case 0
  show ?case by (simp add: initial_globals_def)
next
  case (Suc k)
  then have c: "g_cache_count (filled_globals k) = k"
    and l: "length (g_cache (filled_globals k)) = MAX_CACHE_ENTRIES"
    and e: "\<forall>j<k. g_cache (filled_globals k) ! j
       = \<lparr>module_hash = module_key j, function_hash = 0xCA2BD06B, address = 0x11111\<rparr>"
    by simp_all
  from Suc.prems have k: "k < MAX_CACHE_ENTRIES" by simp
  have "g_cache (filled_globals (Suc k)) ! j
       = \<lparr>module_hash = module_key j, function_hash = 0xCA2BD06B, address = 0x11111\<rparr>"
    if "j < Suc k" for j
  proof (cases "j = k")
    case True
    with k c l show ?thesis by (simp add: cache_insert_def)
  next
    case False
    with that have "j < k" by simp
    with e c False show ?thesis by (simp add: cache_insert_def)
  qed
  with c l show ?case by (simp add: cache_insert_def)
qed

lemma filled_globals_miss:
  assumes "k < MAX_CACHE_ENTRIES"
  shows "cache_check (filled_globals k) (module_key k) 0xCA2BD06B 0 = Ret None"
proof (rule cache_check_miss)
  from assms have s: "g_cache_count (filled_globals k) = k"
    "length (g_cache (filled_globals k)) = MAX_CACHE_ENTRIES"
    "\<forall>j<k. g_cache (filled_globals k) ! j
       = \<lparr>module_hash = module_key j, function_hash = 0xCA2BD06B, address = 0x11111\<rparr>"
    using filled_globals_shape [of k] by simp_all
  from s assms show "g_cache_count (filled_globals k) \<le> length (g_cache (filled_globals k))"
    by simp
  show "\<forall>j. 0 \<le> j \<and> j < g_cache_count (filled_globals k) \<longrightarrow>
      \<not> (module_hash (g_cache (filled_globals k) ! j) = module_key k \<and>
         function_hash (g_cache (filled_globals k) ! j) = 0xCA2BD06B)"
  proof (intro allI impI)
    fix j
    assume "0 \<le> j \<and> j < g_cache_count (filled_globals k)"
    with s have j: "j < k" by simp
    with s have "module_hash (g_cache (filled_globals k) ! j) = module_key j" by simp
    moreover from j assms have "module_key j \<noteq> module_key k"
      using module_key_inj [of j k] by auto
    ultimately show "\<not> (module_hash (g_cache (filled_globals k) ! j) = module_key k \<and>
         function_hash (g_cache (filled_globals k) ! j) = 0xCA2BD06B)"
      by simp
  qed
qed

lemma filled_globals_step:
  assumes "k < MAX_CACHE_ENTRIES"
  shows "resolve_cached win64 (numbered_process k) (filled_globals k) (module_key k) 0xCA2BD06B
     = Some (Ret (0x11111, filled_globals (Suc k)))"
proof -
  from assms have s: "g_cache_count (filled_globals k) = k"
    "length (g_cache (filled_globals k)) = MAX_CACHE_ENTRIES"
    using filled_globals_shape [of k] by simp_all
  with assms have "g_cache_count (filled_globals k) < MAX_CACHE_ENTRIES \<longrightarrow>
      g_cache_count (filled_globals k) < length (g_cache (filled_globals k))"
    by simp
  from resolve_cached_miss [OF filled_globals_miss [OF assms] numbered_find_module [OF assms]
      numbered_find_function this]
  show ?thesis using assms s by (simp add: NULL_def)
qed

lemma filled_globals_reachable: "k \<le> MAX_CACHE_ENTRIES \<Longrightarrow> reachable (filled_globals k)"
proof (induction k)
  case 0
  show ?case by (simp add: reachable.init)
next
  case (Suc k)
  then have r: "reachable (filled_globals k)" and k: "k < MAX_CACHE_ENTRIES" by simp_all
  show ?case
    by (rule reachable.call [OF r filled_globals_step [OF k]])
qed

lemma filled_globals_full_miss:
  "cache_check (filled_globals MAX_CACHE_ENTRIES) 0x6E2BCA17 0xCA2BD06B 0 = Ret None"
proof (rule cache_check_miss)
  have s: "g_cache_count (filled_globals MAX_CACHE_ENTRIES) = MAX_CACHE_ENTRIES"
    "length (g_cache (filled_globals MAX_CACHE_ENTRIES)) = MAX_CACHE_ENTRIES"
    "\<forall>j<MAX_CACHE_ENTRIES. g_cache (filled_globals MAX_CACHE_ENTRIES) ! j
       = \<lparr>module_hash = module_key j, function_hash = 0xCA2BD06B, address = 0x11111\<rparr>"
    using filled_globals_shape [of MAX_CACHE_ENTRIES] by simp_all
  from s show "g_cache_count (filled_globals MAX_CACHE_ENTRIES)
      \<le> length (g_cache (filled_globals MAX_CACHE_ENTRIES))"
    by simp
  show "\<forall>j. 0 \<le> j \<and> j < g_cache_count (filled_globals MAX_CACHE_ENTRIES) \<longrightarrow>
      \<not> (module_hash (g_cache (filled_globals MAX_CACHE_ENTRIES) ! j) = 0x6E2BCA17 \<and>
         function_hash (g_cache (filled_globals MAX_CACHE_ENTRIES) ! j) = 0xCA2BD06B)"
    using s module_key_not_kernel32 by simp
qed

text \<open>
  Claim C7. If a call \<^verbatim>\<open>resolve_cached(m, f)\<close> returns a non-null address \<open>a\<close> while the
  cache is below its capacity, then the call with the same arguments in the resulting
  state returns \<open>a\<close> from the cache check alone: its result is \<open>a\<close>, with the state
  unchanged, whatever the process memory is, so no module enumeration or export scan
  contributes to it.
\<close>

theorem resolve_cached_second_call_from_cache:
  assumes inv: "cache_inv g"
    and first: "resolve_cached W mem g mhash fhash = Some (Ret (a, g'))"
    and ok: "a \<noteq> NULL"
    and room: "g_cache_count g < MAX_CACHE_ENTRIES"
  shows "cache_check g' mhash fhash 0 = Ret (Some a)
       \<and> (\<forall>W' mem'. resolve_cached W' mem' g' mhash fhash = Some (Ret (a, g')))"
proof -
  from inv room have len: "g_cache_count g < length (g_cache g)"
    by (simp add: cache_inv_def)
  from resolve_cached_cases [OF first] have "cache_check g' mhash fhash 0 = Ret (Some a)"
  proof
    assume "cache_check g mhash fhash 0 = Ret (Some a) \<and> g' = g"
    then show ?thesis by simp
  next
    assume m: "cache_check g mhash fhash 0 = Ret None \<and>
      (\<exists>hModule. find_module_by_hash W mem mhash = Some (Ret hModule) \<and>
                 find_function_by_hash W mem hModule fhash = Ret a) \<and>
      (if a \<noteq> NULL \<and> g_cache_count g < MAX_CACHE_ENTRIES
       then g_cache_count g < length (g_cache g) \<and> g' = cache_insert g mhash fhash a
       else g' = g)"
    with ok room have "g' = cache_insert g mhash fhash a" by simp
    moreover from m len
    have "cache_check (cache_insert g mhash fhash a) mhash fhash 0 = Ret (Some a)"
      by (intro cache_check_after_insert) simp_all
    ultimately show ?thesis by simp
  qed
  then show ?thesis by (simp add: resolve_cached_hit)
qed

text \<open>
  The first resolution in the example process fills the first cache slot; the repeated
  call gives the same address even in a process where any module enumeration would fault.
\<close>

theorem resolve_cached_second_call_from_cache_witness:
  "resolve_cached win64 example_process initial_globals 0x6E2BCA17 0xCA2BD06B
     = Some (Ret (0x11111, cache_insert initial_globals 0x6E2BCA17 0xCA2BD06B 0x11111))
   \<and> resolve_cached win64 null_ldr_process
       (cache_insert initial_globals 0x6E2BCA17 0xCA2BD06B 0x11111) 0x6E2BCA17 0xCA2BD06B
     = Some (Ret (0x11111, cache_insert initial_globals 0x6E2BCA17 0xCA2BD06B 0x11111))"
proof -
  have ok: "(0x11111 :: ptr) \<noteq> NULL"
    by (simp add: NULL_def)
  have room: "g_cache_count initial_globals < MAX_CACHE_ENTRIES"
    by (simp add: initial_globals_def MAX_CACHE_ENTRIES_def)
  from resolve_cached_second_call_from_cache [OF cache_inv_initial example_resolve ok room]
  have "resolve_cached win64 null_ldr_process
       (cache_insert initial_globals 0x6E2BCA17 0xCA2BD06B 0x11111) 0x6E2BCA17 0xCA2BD06B
     = Some (Ret (0x11111, cache_insert initial_globals 0x6E2BCA17 0xCA2BD06B 0x11111))"
    by blast
  with example_resolve show ?thesis by simp
qed

text \<open>
  Claim C8. Every call of \<^verbatim>\<open>resolve_cached\<close> that fails, that is, returns \<open>NULL\<close>, leaves
  the cache completely unchanged. In a cache that holds only successful resolutions the
  failing pair is therefore still absent, and a later call with the same arguments, in a
  process where the module is loaded and exports the function, returns its address.
\<close>

theorem resolve_cached_failure_not_cached:
  assumes "resolve_cached W mem g mhash fhash = Some (Ret (NULL, g'))"
  shows "g' = g
       \<and> (cache_inv g \<longrightarrow>
            cache_check g' mhash fhash 0 = Ret None
          \<and> (\<forall>mem' hModule a.
                find_module_by_hash W mem' mhash = Some (Ret hModule) \<and>
                find_function_by_hash W mem' hModule fhash = Ret a \<longrightarrow>
                (\<exists>g''. resolve_cached W mem' g' mhash fhash = Some (Ret (a, g'')))))"
proof -
  from resolve_cached_cases [OF assms] have same: "g' = g"
    by auto
  have "cache_check g mhash fhash 0 = Ret None" if inv: "cache_inv g"
  proof -
    have "cache_check g mhash fhash 0 \<noteq> Ret (Some NULL)"
    proof
      assume "cache_check g mhash fhash 0 = Ret (Some NULL)"
      from cache_check_hit_entry [OF this] inv show False
        by (auto simp: cache_inv_def)
    qed
    with resolve_cached_cases [OF assms] show ?thesis by auto
  qed
  moreover have "\<exists>g''. resolve_cached W mem' g mhash fhash = Some (Ret (a, g''))"
    if "cache_inv g" and "cache_check g mhash fhash 0 = Ret None"
      and "find_module_by_hash W mem' mhash = Some (Ret hModule)"
      and "find_function_by_hash W mem' hModule fhash = Ret a" for mem' hModule a
    using that by (simp add: resolve_cached_miss cache_inv_def)
  ultimately show ?thesis using same by blast
qed

text \<open>
  While the module list is still empty the resolution fails and the cache stays in its
  initial state; once the module is loaded the same call succeeds.
\<close>

theorem resolve_cached_failure_not_cached_witness:
  "resolve_cached win64 empty_list_process initial_globals 0x6E2BCA17 0xCA2BD06B
     = Some (Ret (NULL, initial_globals))
   \<and> (\<exists>g''. resolve_cached win64 example_process initial_globals 0x6E2BCA17 0xCA2BD06B
         = Some (Ret (0x11111, g'')))"
proof -
  from resolve_cached_failure_not_cached [OF empty_list_resolve] cache_inv_initial
    example_find_module example_find_function
  have "\<exists>g''. resolve_cached win64 example_process initial_globals 0x6E2BCA17 0xCA2BD06B
         = Some (Ret (0x11111, g''))"
    by blast
  with empty_list_resolve show ?thesis by simp
qed

text \<open>
  Claim C9. The cache count never exceeds the capacity of 256: in every state the globals
  can reach, the array has 256 elements and the count is at most 256. A successful
  resolution of a pair that is not cached, made while the count is below the capacity, is
  appended: the count grows by one and the slot at the old count holds the pair and its
  address. A returning call changes the globals in no other way: it never lowers the
  count, never changes an entry already stored, and when the count is at the capacity it
  changes nothing at all. With a full cache, a call for a pair that is not cached still
  returns the address that the module and function lookups give, and the cache stays as
  it was.
\<close>

theorem cache_capacity_bound:
  "(reachable g \<longrightarrow> cache_inv g \<and> g_cache_count g \<le> MAX_CACHE_ENTRIES \<and> MAX_CACHE_ENTRIES = 256)
   \<and> (cache_inv g \<and> resolve_cached W mem g mhash fhash = Some (Ret (a, g')) \<longrightarrow>
        cache_inv g'
      \<and> g_cache_count g' \<le> MAX_CACHE_ENTRIES
      \<and> g_cache_count g \<le> g_cache_count g'
      \<and> (\<forall>i<g_cache_count g. g_cache g' ! i = g_cache g ! i)
      \<and> (g_cache_count g = MAX_CACHE_ENTRIES \<longrightarrow> g' = g))
   \<and> (cache_inv g \<and> g_cache_count g = MAX_CACHE_ENTRIES \<and>
      cache_check g mhash fhash 0 = Ret None \<and>
      find_module_by_hash W mem mhash = Some (Ret hModule) \<and>
      find_function_by_hash W mem hModule fhash = Ret a \<longrightarrow>
        resolve_cached W mem g mhash fhash = Some (Ret (a, g)))
   \<and> (cache_inv g \<and> g_cache_count g < MAX_CACHE_ENTRIES \<and>
      cache_check g mhash fhash 0 = Ret None \<and>
      find_module_by_hash W mem mhash = Some (Ret hModule) \<and>
      find_function_by_hash W mem hModule fhash = Ret a \<and> a \<noteq> NULL \<longrightarrow>
        resolve_cached W mem g mhash fhash = Some (Ret (a, cache_insert g mhash fhash a))
      \<and> g_cache_count (cache_insert g mhash fhash a) = g_cache_count g + 1
      \<and> g_cache (cache_insert g mhash fhash a) ! g_cache_count g
          = \<lparr>module_hash = mhash, function_hash = fhash, address = a\<rparr>)
   \<and> (cache_inv g \<and> resolve_cached W mem g mhash fhash = Some (Ret (a, g')) \<longrightarrow>
        g' = g
      \<or> (g_cache_count g < MAX_CACHE_ENTRIES \<and> a \<noteq> NULL \<and>
         cache_check g mhash fhash 0 = Ret None \<and> g' = cache_insert g mhash fhash a))"
proof -
  have reach: "cache_inv g \<and> g_cache_count g \<le> MAX_CACHE_ENTRIES \<and> MAX_CACHE_ENTRIES = 256"
    if "reachable g"
    using reachable_cache_inv [OF that] by (simp add: cache_inv_def MAX_CACHE_ENTRIES_def)
  have step: "cache_inv g' \<and> g_cache_count g' \<le> MAX_CACHE_ENTRIES
      \<and> g_cache_count g \<le> g_cache_count g'
      \<and> (\<forall>i<g_cache_count g. g_cache g' ! i = g_cache g ! i)
      \<and> (g_cache_count g = MAX_CACHE_ENTRIES \<longrightarrow> g' = g)"
    if "cache_inv g" and "resolve_cached W mem g mhash fhash = Some (Ret (a, g'))"
    using resolve_cached_step [OF that] by (simp add: cache_inv_def)
  have full: "resolve_cached W mem g mhash fhash = Some (Ret (a, g))"
    if "cache_inv g" and "g_cache_count g = MAX_CACHE_ENTRIES"
      and "cache_check g mhash fhash 0 = Ret None"
      and "find_module_by_hash W mem mhash = Some (Ret hModule)"
      and "find_function_by_hash W mem hModule fhash = Ret a"
    using that by (simp add: resolve_cached_miss)
  have append: "resolve_cached W mem g mhash fhash = Some (Ret (a, cache_insert g mhash fhash a))
      \<and> g_cache_count (cache_insert g mhash fhash a) = g_cache_count g + 1
      \<and> g_cache (cache_insert g mhash fhash a) ! g_cache_count g
          = \<lparr>module_hash = mhash, function_hash = fhash, address = a\<rparr>"
    if inv: "cache_inv g" and room: "g_cache_count g < MAX_CACHE_ENTRIES"
      and miss: "cache_check g mhash fhash 0 = Ret None"
      and m: "find_module_by_hash W mem mhash = Some (Ret hModule)"
      and f: "find_function_by_hash W mem hModule fhash = Ret a" and a: "a \<noteq> NULL"
  proof -
    from inv room have len: "g_cache_count g < length (g_cache g)"
      by (simp add: cache_inv_def)
    then have "g_cache_count g < MAX_CACHE_ENTRIES \<longrightarrow> g_cache_count g < length (g_cache g)"
      by simp
    from resolve_cached_miss [OF miss m f this] a room
    have "resolve_cached W mem g mhash fhash = Some (Ret (a, cache_insert g mhash fhash a))"
      by simp
    with len show ?thesis by (simp add: cache_insert_def)
  qed
  have only: "g' = g
      \<or> (g_cache_count g < MAX_CACHE_ENTRIES \<and> a \<noteq> NULL \<and>
         cache_check g mhash fhash 0 = Ret None \<and> g' = cache_insert g mhash fhash a)"
    if "cache_inv g" and r: "resolve_cached W mem g mhash fhash = Some (Ret (a, g'))"
    using resolve_cached_cases [OF r] by (auto split: if_splits)
  from reach step full append only show ?thesis by blast
qed

text \<open>
  The first resolution in the example process is appended at slot 0 and leaves the
  globals in a reachable state within the bound; a second resolution of another function
  keeps the first entry. After 256 resolutions of distinct pairs the cache is full, in a
  reachable state; the resolution of one more pair there still returns the address and
  the cache is unchanged.
\<close>

theorem cache_capacity_bound_witness:
  "g_cache_count (cache_insert initial_globals 0x6E2BCA17 0xCA2BD06B 0x11111) \<le> MAX_CACHE_ENTRIES
   \<and> resolve_cached win64 example_process initial_globals 0x6E2BCA17 0xCA2BD06B
       = Some (Ret (0x11111, cache_insert initial_globals 0x6E2BCA17 0xCA2BD06B 0x11111))
   \<and> g_cache_count (cache_insert initial_globals 0x6E2BCA17 0xCA2BD06B 0x11111)
       = g_cache_count initial_globals + 1
   \<and> g_cache (cache_insert initial_globals 0x6E2BCA17 0xCA2BD06B 0x11111)
        ! g_cache_count initial_globals
       = \<lparr>module_hash = 0x6E2BCA17, function_hash = 0xCA2BD06B, address = 0x11111\<rparr>
   \<and> g_cache
        (cache_insert (cache_insert initial_globals 0x6E2BCA17 0xCA2BD06B 0x11111)
           0x6E2BCA17 0x91AFCA54 0x12222) ! 0
       = g_cache (cache_insert initial_globals 0x6E2BCA17 0xCA2BD06B 0x11111) ! 0
   \<and> reachable (filled_globals MAX_CACHE_ENTRIES)
   \<and> g_cache_count (filled_globals MAX_CACHE_ENTRIES) = MAX_CACHE_ENTRIES
   \<and> resolve_cached win64 example_process (filled_globals MAX_CACHE_ENTRIES) 0x6E2BCA17 0xCA2BD06B
       = Some (Ret (0x11111, filled_globals MAX_CACHE_ENTRIES))"
proof -
  let ?g1 = "cache_insert initial_globals 0x6E2BCA17 0xCA2BD06B 0x11111"
  let ?g2 = "cache_insert ?g1 0x6E2BCA17 0x91AFCA54 0x12222"
  let ?full = "filled_globals MAX_CACHE_ENTRIES"
  have r: "reachable ?g1"
    by (rule reachable.call [OF reachable.init example_resolve])
  have i1: "cache_inv ?g1"
    by (rule reachable_cache_inv [OF r])
  have c1: "g_cache_count ?g1 = Suc 0"
    by (simp add: cache_insert_def initial_globals_def)
  have room: "g_cache_count initial_globals < MAX_CACHE_ENTRIES"
    by (simp add: initial_globals_def MAX_CACHE_ENTRIES_def)
  have ok: "(0x11111 :: ptr) \<noteq> NULL"
    by (simp add: NULL_def)
  have rf: "reachable ?full"
    by (rule filled_globals_reachable) simp
  have f: "g_cache_count ?full = MAX_CACHE_ENTRIES"
    using filled_globals_shape [of MAX_CACHE_ENTRIES] by simp
  from cache_capacity_bound [where g = ?g1] r
  have "g_cache_count ?g1 \<le> MAX_CACHE_ENTRIES"
    by blast
  moreover
  from cache_capacity_bound [where g = initial_globals and W = win64 and mem = example_process
      and mhash = "0x6E2BCA17" and fhash = "0xCA2BD06B" and a = "0x11111" and hModule = "0x10000"]
    cache_inv_initial room cache_check_initial example_find_module example_find_function ok
  have "resolve_cached win64 example_process initial_globals 0x6E2BCA17 0xCA2BD06B
       = Some (Ret (0x11111, ?g1))
     \<and> g_cache_count ?g1 = g_cache_count initial_globals + 1
     \<and> g_cache ?g1 ! g_cache_count initial_globals
         = \<lparr>module_hash = 0x6E2BCA17, function_hash = 0xCA2BD06B, address = 0x11111\<rparr>"
    by blast
  moreover
  from cache_capacity_bound [where g = ?g1 and g' = ?g2 and W = win64
      and mem = example_process and mhash = "0x6E2BCA17" and fhash = "0x91AFCA54" and a = "0x12222"]
    i1 example_resolve_second
  have "\<forall>i<g_cache_count ?g1. g_cache ?g2 ! i = g_cache ?g1 ! i"
    by blast
  with c1 have "g_cache ?g2 ! 0 = g_cache ?g1 ! 0"
    by simp
  moreover
  from cache_capacity_bound [where g = ?full and W = win64 and mem = example_process
      and mhash = "0x6E2BCA17" and fhash = "0xCA2BD06B" and a = "0x11111" and hModule = "0x10000"]
    rf f filled_globals_full_miss example_find_module example_find_function
  have "resolve_cached win64 example_process ?full 0x6E2BCA17 0xCA2BD06B
       = Some (Ret (0x11111, ?full))"
    by blast
  ultimately show ?thesis using rf f by blast
qed

end
